theory Spec2Isabelle
  imports Main "HOL-Library.Word" "HOL-Library.AList" "HOL-Library.Multiset"
begin

section \<open>The file checker API: data model\<close>

text \<open>
  The program is \<^verbatim>\<open>file_checker_api/app.py\<close>: a status probe and one handler,
  \<^verbatim>\<open>check_file_list\<close>, which stores the uploaded files in a directory of its own
  and hands the directory's entries to the external file checker.

  Everything the handler does is an effect on the outside: the filesystem, the
  streams of the uploads, the call of the checker. The effects are explicit here.
  A function that can raise returns the state it leaves behind together with
  \<open>Inl\<close> of the exception or \<open>Inr\<close> of its value.

  The library functions the handler calls (\<^verbatim>\<open>os.makedirs\<close>, \<^verbatim>\<open>pathlib\<close>,
  \<^verbatim>\<open>open\<close>, \<^verbatim>\<open>shutil.copyfileobj\<close>) are modelled after CPython on Linux. What
  the model leaves out: permissions, symbolic links, special files, limits on the
  number of files; a write fails only when the disk is full, and then the chunk is
  not written at all; the destination is closed when the \<^verbatim>\<open>with\<close> block is left,
  which nothing observes; \<^verbatim>\<open>glob\<close> is evaluated when the checker is called, not
  lazily inside it; the checker reads the filesystem and does not change it. The name
  of an upload is a string: the framework makes an \<^verbatim>\<open>UploadFile\<close> only for a part
  that has one. A string is the sequence of the bytes the kernel is given for it, its
  UTF-8 encoding, so that the limits of the kernel on the length of a name
  (\<^verbatim>\<open>NAME_MAX\<close>) and of a path (\<^verbatim>\<open>PATH_MAX\<close>) are limits on the length of lists.
\<close>

type_synonym byte = "8 word"

text \<open>
  An absolute POSIX path is the list of its components, the root first;
  \<open>[]\<close> is \<^verbatim>\<open>/\<close>.
\<close>

type_synonym path = "string list"

datatype node = Dir | File "byte list"

text \<open>
  The filesystem is an association list from paths to nodes. The order of the list is
  the order in which a directory is enumerated, which the program does not control.
  \<open>free\<close> is the number of bytes the disk can still take.
\<close>

type_synonym filesystem = "(path \<times> node) list"

datatype error =
    FileExistsError
  | FileNotFoundError
  | NotADirectoryError
  | IsADirectoryError
  | ValueError
  | OSError
  | LibraryError string

text \<open>
  A source stream: the bytes it has still to yield, and whether it was closed.
  \<^verbatim>\<open>UploadFile\<close> has the client-supplied name and the stream.
\<close>

record stream =
  data :: "byte list"
  closed :: bool

record UploadFile =
  filename :: string
  fileobj :: stream

text \<open>
  The world outside the handler: the filesystem, the free space, and the calls of
  the checker's \<^verbatim>\<open>check_files\<close> made so far, each with its two arguments.
\<close>

record world =
  fs :: filesystem
  free :: nat
  calls :: "(path list \<times> string) list"

text \<open>
  The external library \<^verbatim>\<open>argofilechecker_python_wrapper\<close> is not part of the
  repository. It is a parameter: a constructor taking the path of the specifications,
  and the operation \<^verbatim>\<open>check_files\<close> taking the file paths and the name of the
  specification. Both read the filesystem and both may raise.
\<close>

record ('c, 'v) library =
  FileChecker :: "filesystem \<Rightarrow> string \<Rightarrow> error + 'c"
  check_files :: "'c \<Rightarrow> filesystem \<Rightarrow> path list \<Rightarrow> string \<Rightarrow> error + 'v"

section \<open>Paths\<close>

fun split_sep :: "char \<Rightarrow> string \<Rightarrow> string list" where
  "split_sep c [] = [[]]"
| "split_sep c (x # xs) =
     (if x = c then [] # split_sep c xs
      else (case split_sep c xs of
              [] \<Rightarrow> [[x]]
            | w # ws \<Rightarrow> (x # w) # ws))"

text \<open>
  \<^verbatim>\<open>pathlib\<close> drops empty components and single dots when it parses a string, and
  keeps \<^verbatim>\<open>..\<close>.
\<close>

definition path_parts :: "string \<Rightarrow> string list" where
  "path_parts s = filter (\<lambda>c. c \<noteq> [] \<and> c \<noteq> ''.'') (split_sep (CHR ''/'') s)"

definition is_absolute :: "string \<Rightarrow> bool" where
  "is_absolute s = (case s of [] \<Rightarrow> False | c # _ \<Rightarrow> c = CHR ''/'')"

text \<open>\<^verbatim>\<open>Path(s)\<close> for an absolute \<open>s\<close>.\<close>

definition Path :: "string \<Rightarrow> path" where
  "Path s = path_parts s"

text \<open>
  \<^verbatim>\<open>base.joinpath(name)\<close>: an absolute \<open>name\<close> replaces the base, any other is
  appended to it. Nothing is resolved or checked.
\<close>

definition joinpath :: "path \<Rightarrow> string \<Rightarrow> string list" where
  "joinpath base name = (if is_absolute name then path_parts name else base @ path_parts name)"

section \<open>The request identifier\<close>

text \<open>
  \<^verbatim>\<open>uuid4()\<close> returns a 128-bit value; the f-string formats it as 32 lower-case
  hexadecimal digits in groups of 8, 4, 4, 4 and 12.
\<close>

type_synonym uuid = "128 word"

definition hexdigit :: "nat \<Rightarrow> char" where
  "hexdigit n = ''0123456789abcdef'' ! n"

definition hex32 :: "uuid \<Rightarrow> string" where
  "hex32 u = map (\<lambda>i. hexdigit (unat (take_bit 4 (drop_bit (4 * (31 - i)) u)))) [0..<32]"

definition uuid_str :: "uuid \<Rightarrow> string" where
  "uuid_str u =
     (let h = hex32 u
      in take 8 h @ ''-'' @ take 4 (drop 8 h) @ ''-'' @ take 4 (drop 12 h) @ ''-''
         @ take 4 (drop 16 h) @ ''-'' @ drop 20 h)"

section \<open>The filesystem operations the handler uses\<close>

definition lookup :: "filesystem \<Rightarrow> path \<Rightarrow> node option" where
  "lookup t p = (if p = [] then Some Dir else map_of t p)"

text \<open>
  The limits of Linux: a path whose string has \<^verbatim>\<open>PATH_MAX\<close> bytes or more (with
  its final NUL it has to fit into \<^verbatim>\<open>PATH_MAX\<close> bytes) and a component of more
  than \<^verbatim>\<open>NAME_MAX\<close> bytes are refused with \<^verbatim>\<open>ENAMETOOLONG\<close>, which Python
  raises as \<^verbatim>\<open>OSError\<close>. \<open>path_len\<close> is the length of the string of an
  absolute path: a slash before each component.
\<close>

definition NAME_MAX :: nat where
  "NAME_MAX = 255"

definition PATH_MAX :: nat where
  "PATH_MAX = 4096"

definition path_len :: "string list \<Rightarrow> nat" where
  "path_len parts = sum_list (map (\<lambda>c. Suc (length c)) parts)"

text \<open>
  \<^verbatim>\<open>os.mkdir\<close>, for a path without \<^verbatim>\<open>..\<close>: the parent must be a directory and
  the name must be free, and within the limit.
\<close>

definition os_mkdir :: "filesystem \<Rightarrow> path \<Rightarrow> filesystem \<times> (error + unit)" where
  "os_mkdir t p =
     (if PATH_MAX \<le> path_len p then (t, Inl OSError)
      else
        (case lookup t p of
           Some _ \<Rightarrow> (t, Inl FileExistsError)
         | None \<Rightarrow>
             (case lookup t (butlast p) of
                None \<Rightarrow> (t, Inl FileNotFoundError)
              | Some (File _) \<Rightarrow> (t, Inl NotADirectoryError)
              | Some Dir \<Rightarrow>
                  if NAME_MAX < length (last p) then (t, Inl OSError)
                  else (AList.update p Dir t, Inr ()))))"

text \<open>
  \<^verbatim>\<open>os.makedirs(name)\<close> with \<^verbatim>\<open>exist_ok=False\<close>: the missing ancestors are made
  first (a \<^verbatim>\<open>FileExistsError\<close> there is swallowed), then the leaf with \<^verbatim>\<open>mkdir\<close>,
  whose errors propagate.
\<close>

function os_makedirs :: "filesystem \<Rightarrow> path \<Rightarrow> filesystem \<times> (error + unit)" where
  "os_makedirs t name =
     (if name \<noteq> [] \<and> lookup t (butlast name) = None then
        (case os_makedirs t (butlast name) of
           (t', Inl e) \<Rightarrow> if e = FileExistsError then os_mkdir t' name else (t', Inl e)
         | (t', Inr _) \<Rightarrow> os_mkdir t' name)
      else os_mkdir t name)"
  by pat_completeness auto

termination
  by (relation "measure (\<lambda>(t, name). length name)") auto

declare os_makedirs.simps [simp del]

text \<open>
  What the kernel does with a path: it walks the components from the root. Every
  component is looked up in a directory that must exist; \<^verbatim>\<open>..\<close> goes to the
  parent; a component longer than \<^verbatim>\<open>NAME_MAX\<close> is refused.
\<close>

fun walk :: "filesystem \<Rightarrow> path \<Rightarrow> string list \<Rightarrow> error + path" where
  "walk t cur [] = Inr cur"
| "walk t cur (c # cs) =
     (case lookup t cur of
        None \<Rightarrow> Inl FileNotFoundError
      | Some (File _) \<Rightarrow> Inl NotADirectoryError
      | Some Dir \<Rightarrow>
          if c = ''..'' then walk t (butlast cur) cs
          else if NAME_MAX < length c then Inl OSError
          else walk t (cur @ [c]) cs)"

text \<open>
  \<^verbatim>\<open>open(p, "wb")\<close>: write-only, create, truncate. A name holding a NUL byte is
  refused by Python, a path that is too long by the kernel; a directory cannot be
  opened for writing; an existing file is emptied and its bytes are free again; a
  missing file is created empty. The handle is the path of the file.
\<close>

definition open_wb :: "world \<Rightarrow> string list \<Rightarrow> world \<times> (error + path)" where
  "open_wb w parts =
     (if \<exists>c \<in> set parts. CHR 0x00 \<in> set c then (w, Inl ValueError)
      else if PATH_MAX \<le> path_len parts then (w, Inl OSError)
      else
        (case walk (fs w) [] parts of
           Inl e \<Rightarrow> (w, Inl e)
         | Inr p \<Rightarrow>
             (case lookup (fs w) p of
                Some Dir \<Rightarrow> (w, Inl IsADirectoryError)
              | Some (File old) \<Rightarrow>
                  (w\<lparr>fs := AList.update p (File []) (fs w), free := free w + length old\<rparr>, Inr p)
              | None \<Rightarrow>
                  (case lookup (fs w) (butlast p) of
                     Some Dir \<Rightarrow> (w\<lparr>fs := AList.update p (File []) (fs w)\<rparr>, Inr p)
                   | Some (File _) \<Rightarrow> (w, Inl NotADirectoryError)
                   | None \<Rightarrow> (w, Inl FileNotFoundError)))))"

text \<open>
  Writing a chunk appends it to the file, when the disk has room for it.
\<close>

definition write_chunk :: "world \<Rightarrow> path \<Rightarrow> byte list \<Rightarrow> world \<times> (error + unit)" where
  "write_chunk w h buf =
     (case lookup (fs w) h of
        Some (File old) \<Rightarrow>
          if length buf \<le> free w
          then (w\<lparr>fs := AList.update h (File (old @ buf)) (fs w), free := free w - length buf\<rparr>, Inr ())
          else (w, Inl OSError)
      | _ \<Rightarrow> (w, Inl OSError))"

text \<open>Reading at most \<open>n\<close> bytes; a closed stream raises.\<close>

definition read :: "stream \<Rightarrow> nat \<Rightarrow> stream \<times> (error + byte list)" where
  "read s n =
     (if closed s then (s, Inl ValueError)
      else (s\<lparr>data := drop n (data s)\<rparr>, Inr (take n (data s))))"

definition close :: "stream \<Rightarrow> stream" where
  "close s = s\<lparr>closed := True\<rparr>"

definition COPY_BUFSIZE :: nat where
  "COPY_BUFSIZE = 64 * 1024"

text \<open>
  \<^verbatim>\<open>shutil.copyfileobj\<close>:
  \<^verbatim>\<open>while buf := fsrc_read(length): fdst_write(buf)\<close>.
\<close>

function copy_loop :: "nat \<Rightarrow> path \<Rightarrow> world \<Rightarrow> stream \<Rightarrow> (world \<times> stream) \<times> (error + unit)" where
  "copy_loop n h w s =
     (case read s n of
        (s', Inl e) \<Rightarrow> ((w, s'), Inl e)
      | (s', Inr buf) \<Rightarrow>
          if buf = [] then ((w, s'), Inr ())
          else (case write_chunk w h buf of
                  (w', Inl e) \<Rightarrow> ((w', s'), Inl e)
                | (w', Inr _) \<Rightarrow> copy_loop n h w' s'))"
  by pat_completeness auto

termination
  by (relation "measure (\<lambda>(n, h, w, s). length (data s))")
     (auto simp: read_def split: if_splits)

declare copy_loop.simps [simp del]

definition copyfileobj :: "nat \<Rightarrow> path \<Rightarrow> world \<Rightarrow> stream \<Rightarrow> (world \<times> stream) \<times> (error + unit)" where
  "copyfileobj len h w s = copy_loop (if len = 0 then COPY_BUFSIZE else len) h w s"

text \<open>
  \<^verbatim>\<open>request_file_dir.glob("*")\<close>: the entries directly under the directory, in the
  directory's own order.
\<close>

definition glob_star :: "filesystem \<Rightarrow> path \<Rightarrow> path list" where
  "glob_star t d = filter (\<lambda>p. p \<noteq> [] \<and> butlast p = d) (map fst t)"

section \<open>The handlers\<close>

text \<open>\<^verbatim>\<open>app_status\<close> returns the set literal \<^verbatim>\<open>{"OK"}\<close> and touches nothing.\<close>

definition app_status :: "world \<Rightarrow> world \<times> string set" where
  "app_status w = (w, {''OK''})"

text \<open>
  The body of the loop for one upload: open the destination, copy, and in any case
  close the source (\<^verbatim>\<open>try ... finally\<close>).
\<close>

definition copy_upload :: "path \<Rightarrow> world \<Rightarrow> UploadFile \<Rightarrow> (world \<times> UploadFile) \<times> (error + unit)" where
  "copy_upload request_file_dir w upload_file =
     (case
        (case open_wb w (joinpath request_file_dir (filename upload_file)) of
           (w', Inl e) \<Rightarrow> ((w', fileobj upload_file), Inl e)
         | (w', Inr buffer) \<Rightarrow> copyfileobj 0 buffer w' (fileobj upload_file))
      of ((w', s'), r) \<Rightarrow> ((w', upload_file\<lparr>fileobj := close s'\<rparr>), r))"

text \<open>The loop over the uploads stops at the first exception.\<close>

fun copy_all :: "path \<Rightarrow> world \<Rightarrow> UploadFile list \<Rightarrow> (world \<times> UploadFile list) \<times> (error + unit)" where
  "copy_all d w [] = ((w, []), Inr ())"
| "copy_all d w (upload_file # rest) =
     (case copy_upload d w upload_file of
        ((w', u'), Inl e) \<Rightarrow> ((w', u' # rest), Inl e)
      | ((w', u'), Inr _) \<Rightarrow>
          (case copy_all d w' rest of
             ((w'', rest'), r) \<Rightarrow> ((w'', u' # rest'), r)))"

definition request_dir :: "uuid \<Rightarrow> path" where
  "request_dir request_id = Path (''/home/app/input/'' @ uuid_str request_id)"

text \<open>
  The handler. \<open>request_id\<close> is the value \<^verbatim>\<open>uuid4()\<close> returned. The result has the
  world and the uploads as the handler leaves them, and the exception or the response.
\<close>

definition check_file_list ::
  "('c, 'v) library \<Rightarrow> uuid \<Rightarrow> world \<Rightarrow> UploadFile list
     \<Rightarrow> (world \<times> UploadFile list) \<times> (error + (string \<rightharpoonup> 'v))" where
  "check_file_list lib request_id w files =
     (let request_file_dir = request_dir request_id in
      case os_makedirs (fs w) request_file_dir of
        (t, Inl e) \<Rightarrow> ((w\<lparr>fs := t\<rparr>, files), Inl e)
      | (t, Inr _) \<Rightarrow>
          (case copy_all request_file_dir (w\<lparr>fs := t\<rparr>) files of
             ((w', files'), Inl e) \<Rightarrow> ((w', files'), Inl e)
           | ((w', files'), Inr _) \<Rightarrow>
               (case FileChecker lib (fs w') ''/home/app/file_checker_spec'' of
                  Inl e \<Rightarrow> ((w', files'), Inl e)
                | Inr file_checker \<Rightarrow>
                    (let paths = glob_star (fs w') request_file_dir;
                         w'' = w'\<lparr>calls := calls w' @ [(paths, ''bodc'')]\<rparr>
                     in case check_files lib file_checker (fs w') paths ''bodc'' of
                          Inl e \<Rightarrow> ((w'', files'), Inl e)
                        | Inr v \<Rightarrow> ((w'', files'), Inr [''results'' \<mapsto> v])))))"

section \<open>Notions used in the statements\<close>

text \<open>
  A plain name is one path component: not empty, neither \<^verbatim>\<open>.\<close> nor \<^verbatim>\<open>..\<close>, and
  without a slash.
\<close>

definition plain_name :: "string \<Rightarrow> bool" where
  "plain_name n = (n \<noteq> [] \<and> n \<noteq> ''.'' \<and> n \<noteq> ''..'' \<and> CHR ''/'' \<notin> set n)"

definition nul_free :: "string list \<Rightarrow> bool" where
  "nul_free parts = (\<forall>c \<in> set parts. CHR 0x00 \<notin> set c)"

definition uuid_char :: "char \<Rightarrow> bool" where
  "uuid_char c = (c \<in> set ''0123456789abcdef'' \<or> c = CHR ''-'')"

text \<open>
  A filesystem is well formed when no path is listed twice and every entry lies in a
  directory.
\<close>

definition wf_fs :: "filesystem \<Rightarrow> bool" where
  "wf_fs t = (distinct (map fst t) \<and> (\<forall>p \<in> set (map fst t). lookup t (butlast p) = Some Dir))"

text \<open>
  \<open>same_dirs\<close>: the two filesystems have the same directories.
  \<open>keeps\<close>: nothing of the first is removed in the second, and no directory of the
  first is replaced.
\<close>

definition same_dirs :: "filesystem \<Rightarrow> filesystem \<Rightarrow> bool" where
  "same_dirs t t' = (\<forall>p. lookup t p = Some Dir \<longleftrightarrow> lookup t' p = Some Dir)"

definition keeps :: "filesystem \<Rightarrow> filesystem \<Rightarrow> bool" where
  "keeps t t' = (\<forall>p. (lookup t p = Some Dir \<longrightarrow> lookup t' p = Some Dir) \<and>
                      (lookup t p \<noteq> None \<longrightarrow> lookup t' p \<noteq> None))"

text \<open>
  The destination of an upload: the path at which the kernel finds
  \<^verbatim>\<open>request_file_dir.joinpath(name)\<close>.
\<close>

definition dest :: "filesystem \<Rightarrow> path \<Rightarrow> string \<Rightarrow> path" where
  "dest t d n = (case walk t [] (joinpath d n) of Inr p \<Rightarrow> p | Inl e \<Rightarrow> [])"

text \<open>An upload after its copy: read to the end and closed.\<close>

definition drained :: "UploadFile \<Rightarrow> UploadFile" where
  "drained u = u\<lparr>fileobj := \<lparr>data = [], closed = True\<rparr>\<rparr>"

text \<open>Writing every upload, in order, at its destination.\<close>

definition store :: "path \<Rightarrow> filesystem \<Rightarrow> filesystem \<Rightarrow> UploadFile list \<Rightarrow> filesystem" where
  "store d t0 t files =
     foldl (\<lambda>t u. AList.update (dest t0 d (filename u)) (File (data (fileobj u))) t) t files"

text \<open>
  Concrete inputs for the examples: a checker that accepts everything and returns the
  paths it was given, one whose \<^verbatim>\<open>check_files\<close> raises, an empty disk with room for
  100 bytes, and an open upload.
\<close>

definition lib_ok :: "(unit, path list) library" where
  "lib_ok = \<lparr>FileChecker = (\<lambda>t s. Inr ()), check_files = (\<lambda>c t ps s. Inr ps)\<rparr>"

definition w0 :: world where
  "w0 = \<lparr>fs = [], free = 100, calls = []\<rparr>"

definition up :: "string \<Rightarrow> byte list \<Rightarrow> UploadFile" where
  "up n bs = \<lparr>filename = n, fileobj = \<lparr>data = bs, closed = False\<rparr>\<rparr>"

text \<open>The scenario of the specification: two uploads, \<^verbatim>\<open>a.txt\<close> and \<^verbatim>\<open>b.csv\<close>.\<close>

definition scenario :: "UploadFile list" where
  "scenario = [up ''a.txt'' [104, 101, 108, 108, 111], up ''b.csv'' [120, 44, 121, 10, 49, 44, 50]]"

definition scenario_fs :: filesystem where
  "scenario_fs =
     [([''home''], Dir), ([''home'', ''app''], Dir), ([''home'', ''app'', ''input''], Dir),
      (request_dir 5, Dir),
      (request_dir 5 @ [''a.txt''], File [104, 101, 108, 108, 111]),
      (request_dir 5 @ [''b.csv''], File [120, 44, 121, 10, 49, 44, 50])]"

definition escaped_fs :: filesystem where
  "escaped_fs =
     [([''home''], Dir), ([''home'', ''app''], Dir), ([''home'', ''app'', ''input''], Dir),
      (request_dir 5, Dir),
      ([''home'', ''app'', ''input'', ''b''], File [4])]"

definition absolute_fs :: filesystem where
  "absolute_fs =
     [([''home''], Dir), ([''home'', ''app''], Dir), ([''home'', ''app'', ''input''], Dir),
      (request_dir 5, Dir), ([''b''], File [4])]"

definition collided_fs :: filesystem where
  "collided_fs =
     [([''home''], Dir), ([''home'', ''app''], Dir), ([''home'', ''app'', ''input''], Dir),
      (request_dir 5, Dir), (request_dir 5 @ [''a.txt''], File [4])]"

text \<open>The number of uploads for which the body of the loop is entered.\<close>

fun attempted :: "path \<Rightarrow> world \<Rightarrow> UploadFile list \<Rightarrow> nat" where
  "attempted d w [] = 0"
| "attempted d w (u # us) =
     (case copy_upload d w u of
        ((w', u'), Inl e) \<Rightarrow> 1
      | ((w', u'), Inr x) \<Rightarrow> Suc (attempted d w' us))"

text \<open>
  More concrete inputs: the directories a first request makes, a disk on which they
  exist already, a disk with room for one chunk, an upload of one chunk and one byte,
  a checker whose constructor raises and one whose \<^verbatim>\<open>check_files\<close> raises.
\<close>

definition made_fs :: filesystem where
  "made_fs = [([''home''], Dir), ([''home'', ''app''], Dir), ([''home'', ''app'', ''input''], Dir),
       (request_dir 5, Dir)]"

definition w_taken :: world where
  "w_taken = \<lparr>fs = made_fs, free = 100, calls = []\<rparr>"

definition w_tight :: world where
  "w_tight = \<lparr>fs = [], free = 65536, calls = []\<rparr>"

definition big_files :: "UploadFile list" where
  "big_files = [up ''big.bin'' (replicate 65537 0), up ''c'' [3]]"

definition broken_files :: "UploadFile list" where
  "broken_files = [up ''a.txt'' [1], up ''sub/x'' [2], up ''c'' [3]]"

definition lib_noinit :: "(unit, path list) library" where
  "lib_noinit = \<lparr>FileChecker = (\<lambda>t s. Inl (LibraryError ''no specs'')),
                  check_files = (\<lambda>c t ps s. Inr ps)\<rparr>"

definition lib_reject :: "(unit, path list) library" where
  "lib_reject = \<lparr>FileChecker = (\<lambda>t s. Inr ()),
                  check_files = (\<lambda>c t ps s. Inl (LibraryError ''bad spec''))\<rparr>"

text \<open>
  A full disk that holds the files of the scenario, and an empty disk with room for
  three bytes.
\<close>

definition w_full :: world where
  "w_full = \<lparr>fs = scenario_fs, free = 0, calls = []\<rparr>"

definition w_small :: world where
  "w_small = \<lparr>fs = [], free = 3, calls = []\<rparr>"

text \<open>
  The handler, one step at a time, for requests that run at the same time. A request
  is at its start, in the loop with the uploads it has copied and those it has still
  to copy, or finished. A step makes the directory, runs the body of the loop for one
  upload, or calls the checker.
\<close>

datatype 'v phase =
    Start "UploadFile list"
  | Copying "UploadFile list" "UploadFile list"
  | Finished "UploadFile list" "error + (string \<rightharpoonup> 'v)"

fun handler_step :: "('c, 'v) library \<Rightarrow> uuid \<Rightarrow> world \<times> 'v phase \<Rightarrow> world \<times> 'v phase" where
  "handler_step lib request_id (w, Start files) =
     (case os_makedirs (fs w) (request_dir request_id) of
        (t, Inl e) \<Rightarrow> (w\<lparr>fs := t\<rparr>, Finished files (Inl e))
      | (t, Inr _) \<Rightarrow> (w\<lparr>fs := t\<rparr>, Copying [] files))"
| "handler_step lib request_id (w, Copying copied (upload_file # rest)) =
     (case copy_upload (request_dir request_id) w upload_file of
        ((w', u'), Inl e) \<Rightarrow> (w', Finished (copied @ u' # rest) (Inl e))
      | ((w', u'), Inr _) \<Rightarrow> (w', Copying (copied @ [u']) rest))"
| "handler_step lib request_id (w, Copying copied []) =
     (case FileChecker lib (fs w) ''/home/app/file_checker_spec'' of
        Inl e \<Rightarrow> (w, Finished copied (Inl e))
      | Inr file_checker \<Rightarrow>
          (let paths = glob_star (fs w) (request_dir request_id);
               w' = w\<lparr>calls := calls w @ [(paths, ''bodc'')]\<rparr>
           in case check_files lib file_checker (fs w) paths ''bodc'' of
                Inl e \<Rightarrow> (w', Finished copied (Inl e))
              | Inr v \<Rightarrow> (w', Finished copied (Inr [''results'' \<mapsto> v]))))"
| "handler_step lib request_id (w, Finished files r) = (w, Finished files r)"

text \<open>Two requests on one world: each step is a step of one of them.\<close>

inductive interleave ::
  "('c, 'v) library \<Rightarrow> uuid \<Rightarrow> uuid \<Rightarrow> world \<times> 'v phase \<times> 'v phase
     \<Rightarrow> world \<times> 'v phase \<times> 'v phase \<Rightarrow> bool"
  for lib a b where
    first: "handler_step lib a (w, p) = (w', p') \<Longrightarrow> interleave lib a b (w, p, q) (w', p', q)"
  | second: "handler_step lib b (w, q) = (w', q') \<Longrightarrow> interleave lib a b (w, p, q) (w', p, q')"

text \<open>The files a request has put into its directory, by their names.\<close>

definition own :: "uuid \<Rightarrow> UploadFile list \<Rightarrow> path set" where
  "own request_id files = (\<lambda>u. request_dir request_id @ [filename u]) ` set files"

text \<open>
  What holds of a request at every moment, when its names are plain: in the loop, its
  directory exists and holds the files of the uploads copied so far, and nothing else.
\<close>

fun phase_ok :: "uuid \<Rightarrow> UploadFile list \<Rightarrow> world \<Rightarrow> 'v phase \<Rightarrow> bool" where
  "phase_ok request_id files w (Start fl) = (fl = files)"
| "phase_ok request_id files w (Copying copied rest) =
     (map filename (copied @ rest) = map filename files \<and>
      lookup (fs w) (request_dir request_id) = Some Dir \<and>
      set (glob_star (fs w) (request_dir request_id)) = own request_id copied)"
| "phase_ok request_id files w (Finished fl r) = True"

definition isolated :: "uuid \<Rightarrow> uuid \<Rightarrow> UploadFile list \<Rightarrow> UploadFile list
    \<Rightarrow> world \<times> 'v phase \<times> 'v phase \<Rightarrow> bool" where
  "isolated a b fa fb s =
     (case s of (w, p, q) \<Rightarrow> wf_fs (fs w) \<and> phase_ok a fa w p \<and> phase_ok b fb w q)"

text \<open>
  Two requests at the same time, with the identifiers 5 and 6. The first uploads a file
  whose name points into the directory of the second.
\<close>

definition intruder :: "UploadFile list" where
  "intruder = [up (''../'' @ uuid_str 6 @ ''/x'') [4]]"

definition victim :: "UploadFile list" where
  "victim = [up ''y'' [7]]"

definition shared_fs :: filesystem where
  "shared_fs = [([''home''], Dir), ([''home'', ''app''], Dir), ([''home'', ''app'', ''input''], Dir),
       (request_dir 6, Dir), (request_dir 5, Dir)]"

section \<open>Paths and identifiers\<close>

lemma split_sep_none: "c \<notin> set s \<Longrightarrow> split_sep c s = [s]"
  by (induction s) auto

lemma path_parts_plain: "plain_name n \<Longrightarrow> path_parts n = [n]"
  by (simp add: path_parts_def plain_name_def split_sep_none)

lemma joinpath_plain: "plain_name n \<Longrightarrow> joinpath d n = d @ [n]"
  by (cases n) (auto simp: joinpath_def is_absolute_def path_parts_plain, simp add: plain_name_def)

lemma hexdigit_char: "n < 16 \<Longrightarrow> uuid_char (hexdigit n)"
  unfolding hexdigit_def uuid_char_def by (rule disjI1, rule nth_mem) simp

lemma nibble_less: "unat (take_bit 4 (x :: uuid)) < 16"
proof -
  have "unat (take_bit 4 x) < 2 ^ 4"
    by (simp only: unsigned_take_bit_eq) (rule take_bit_nat_less_exp)
  then show ?thesis by simp
qed

lemma length_hex32: "length (hex32 u) = 32"
  by (simp add: hex32_def)

lemma hex32_chars: "c \<in> set (hex32 u) \<Longrightarrow> uuid_char c"
  unfolding hex32_def using hexdigit_char nibble_less by auto

lemma uuid_str_chars: "c \<in> set (uuid_str u) \<Longrightarrow> uuid_char c"
proof -
  assume "c \<in> set (uuid_str u)"
  then consider "c \<in> set (hex32 u)" | "c = CHR ''-''"
    by (auto simp: uuid_str_def Let_def dest: in_set_takeD in_set_dropD)
  then show ?thesis
    by cases (auto simp: hex32_chars, simp add: uuid_char_def)
qed

lemma length_uuid_str: "length (uuid_str u) = 36"
  by (simp add: uuid_str_def Let_def length_hex32)

lemma uuid_str_plain: "plain_name (uuid_str u)"
proof -
  have "\<not> uuid_char (CHR ''/'')" by (simp add: uuid_char_def)
  then have "CHR ''/'' \<notin> set (uuid_str u)" using uuid_str_chars by blast
  then show ?thesis
    using length_uuid_str [of u] by (auto simp: plain_name_def)
qed

lemma uuid_str_nul: "CHR 0x00 \<notin> set (uuid_str u)"
proof -
  have "\<not> uuid_char (CHR 0x00)" by (simp add: uuid_char_def)
  then show ?thesis using uuid_str_chars by blast
qed

text \<open>The format, on one identifier.\<close>

lemma upt_32:
  "[0..<32] = [0, 1, 2, 3, 4, 5, 6, 7, 8, 9, 10, 11, 12, 13, 14, 15, 16, 17, 18, 19, 20, 21, 22,
     23, 24, 25, 26, 27, 28, 29, 30, 31]"
  by (simp add: upt_conv_Cons)

lemma uuid_str_example:
  "uuid_str 0x0123456789abcdef0123456789abcdef = ''01234567-89ab-cdef-0123-456789abcdef''"
  by (simp add: uuid_str_def hex32_def hexdigit_def upt_32 drop_bit_eq_div take_bit_eq_mod)

lemma request_dir_eq: "request_dir u = [''home'', ''app'', ''input'', uuid_str u]"
  using uuid_str_plain [of u]
  by (simp add: request_dir_def Path_def path_parts_def split_sep_none plain_name_def)

lemma request_dir_short: "c \<in> set (request_dir rid) \<Longrightarrow> length c \<le> NAME_MAX"
  by (auto simp: request_dir_eq length_uuid_str NAME_MAX_def)

lemma path_len_request: "path_len (request_dir rid @ [n]) = 53 + length n"
  by (simp add: path_len_def request_dir_eq length_uuid_str)

section \<open>The filesystem\<close>

lemma lookup_root [simp]: "lookup t [] = Some Dir"
  by (simp add: lookup_def)

lemma lookup_update:
  "lookup (AList.update p v t) q = (if q = [] then Some Dir else if q = p then Some v else lookup t q)"
  by (simp add: lookup_def update_conv')

lemma lookup_None_iff: "lookup t p = None \<longleftrightarrow> p \<noteq> [] \<and> p \<notin> set (map fst t)"
  by (auto simp: lookup_def map_of_eq_None_iff)

lemma butlast_neq: "p \<noteq> [] \<Longrightarrow> butlast p \<noteq> p"
  by (metis length_butlast diff_less length_greater_0_conv less_irrefl zero_less_one)

lemma wf_fs_update:
  assumes "wf_fs t" and "lookup t (butlast p) = Some Dir" and "v = Dir \<or> lookup t p \<noteq> Some Dir"
  shows "wf_fs (AList.update p v t)"
proof -
  have d: "distinct (map fst (AList.update p v t))"
    using assms(1) by (simp add: wf_fs_def distinct_update)
  have "lookup (AList.update p v t) (butlast q) = Some Dir"
    if "q \<in> set (map fst (AList.update p v t))" for q
  proof -
    from that have "q = p \<or> q \<in> set (map fst t)"
      by (auto simp: update_keys split: if_splits)
    then have par: "lookup t (butlast q) = Some Dir"
      using assms(1,2) by (auto simp: wf_fs_def)
    show ?thesis
      using par assms(3) by (auto simp: lookup_update)
  qed
  with d show ?thesis by (simp add: wf_fs_def)
qed

lemma glob_star_update:
  "glob_star (AList.update p v t) d =
     (if p \<in> set (map fst t) then glob_star t d
      else glob_star t d @ (if p \<noteq> [] \<and> butlast p = d then [p] else []))"
  by (simp add: glob_star_def update_keys)

lemma glob_star_empty:
  assumes "wf_fs t" and "lookup t d = None"
  shows "glob_star t d = []"
proof -
  have "\<not> (p \<noteq> [] \<and> butlast p = d)" if "p \<in> set (map fst t)" for p
    using assms that by (auto simp: wf_fs_def)
  then show ?thesis
    unfolding glob_star_def by (simp add: filter_empty_conv)
qed

lemma set_glob_star: "set (glob_star t d) = {p \<in> set (map fst t). p \<noteq> [] \<and> butlast p = d}"
  by (auto simp: glob_star_def)

lemma distinct_glob_star: "wf_fs t \<Longrightarrow> distinct (glob_star t d)"
  by (simp add: glob_star_def wf_fs_def)

subsection \<open>mkdir and makedirs\<close>

lemma os_mkdir_Inr:
  "os_mkdir t p = (t', Inr u) \<Longrightarrow>
     lookup t p = None \<and> lookup t (butlast p) = Some Dir \<and> t' = AList.update p Dir t"
  by (auto simp: os_mkdir_def split: option.splits node.splits if_splits)

lemma os_mkdir_Inl: "os_mkdir t p = (t', Inl e) \<Longrightarrow> t' = t"
  by (auto simp: os_mkdir_def split: option.splits node.splits if_splits)

lemma wf_fs_os_mkdir: "wf_fs t \<Longrightarrow> wf_fs (fst (os_mkdir t p))"
  by (auto simp: os_mkdir_def wf_fs_update split: option.splits node.splits)

lemma wf_fs_os_makedirs: "wf_fs t \<Longrightarrow> wf_fs (fst (os_makedirs t name))"
proof (induction t name rule: os_makedirs.induct)
  case (1 t name)
  show ?case
  proof (cases "name \<noteq> [] \<and> lookup t (butlast name) = None")
    case True
    with 1 have "wf_fs (fst (os_makedirs t (butlast name)))" by simp
    then show ?thesis
      using True by (subst os_makedirs.simps) (auto split: prod.splits sum.splits
          dest: wf_fs_os_mkdir [where p = name])
  next
    case False
    then show ?thesis
      using "1.prems" by (subst os_makedirs.simps) (auto simp: wf_fs_os_mkdir)
  qed
qed

text \<open>A successful makedirs ends with a successful mkdir of the leaf.\<close>

lemma os_makedirs_Inr:
  assumes "os_makedirs t name = (t1, Inr u)"
  shows "\<exists>t'. os_mkdir t' name = (t1, Inr u) \<and> (wf_fs t \<longrightarrow> wf_fs t')"
proof (cases "name \<noteq> [] \<and> lookup t (butlast name) = None")
  case True
  obtain t' r where rec: "os_makedirs t (butlast name) = (t', r)"
    by (cases "os_makedirs t (butlast name)")
  have "wf_fs t \<longrightarrow> wf_fs t'"
    using wf_fs_os_makedirs [of t "butlast name"] rec by simp
  moreover have "os_mkdir t' name = (t1, Inr u)"
    using assms True rec by (subst (asm) os_makedirs.simps) (auto split: sum.splits if_splits)
  ultimately show ?thesis by blast
next
  case False
  then have "os_mkdir t name = (t1, Inr u)"
    using assms by (subst (asm) os_makedirs.simps) auto
  then show ?thesis by blast
qed

lemma os_makedirs_fresh:
  assumes "os_makedirs t name = (t1, Inr u)" and "wf_fs t" and "name \<noteq> []"
  shows "wf_fs t1 \<and> lookup t1 name = Some Dir \<and> glob_star t1 name = []"
proof -
  obtain t' where mk: "os_mkdir t' name = (t1, Inr u)" and wf: "wf_fs t'"
    using os_makedirs_Inr [OF assms(1)] assms(2) by blast
  from os_mkdir_Inr [OF mk] have none: "lookup t' name = None"
    and par: "lookup t' (butlast name) = Some Dir" and t1: "t1 = AList.update name Dir t'"
    by auto
  have "wf_fs t1" using wf par t1 by (simp add: wf_fs_update)
  moreover have "lookup t1 name = Some Dir"
    using t1 assms(3) by (simp add: lookup_update)
  moreover have "glob_star t1 name = []"
    using glob_star_empty [OF wf none] none assms(3) t1
    by (simp add: glob_star_update butlast_neq)
  ultimately show ?thesis by blast
qed

subsection \<open>Resolving a path\<close>

lemma same_dirs_refl [simp]: "same_dirs t t"
  by (simp add: same_dirs_def)

lemma same_dirs_trans: "same_dirs t t' \<Longrightarrow> same_dirs t' t'' \<Longrightarrow> same_dirs t t''"
  by (simp add: same_dirs_def)

lemma same_dirs_sym: "same_dirs t t' \<Longrightarrow> same_dirs t' t"
  by (simp add: same_dirs_def)

lemma keeps_refl [simp]: "keeps t t"
  by (simp add: keeps_def)

lemma keeps_trans: "keeps t t' \<Longrightarrow> keeps t' t'' \<Longrightarrow> keeps t t''"
  by (simp add: keeps_def)

lemma same_dirs_update_file:
  "lookup t p \<noteq> Some Dir \<Longrightarrow> same_dirs t (AList.update p (File b) t)"
  by (auto simp: same_dirs_def lookup_update)

lemma keeps_update:
  "v = Dir \<or> lookup t p \<noteq> Some Dir \<Longrightarrow> keeps t (AList.update p v t)"
  by (auto simp: keeps_def lookup_update)

lemma walk_same_dirs:
  "same_dirs t t' \<Longrightarrow> walk t cur cs = Inr p \<longleftrightarrow> walk t' cur cs = Inr p"
proof (induction cs arbitrary: cur)
  case Nil
  show ?case by simp
next
  case (Cons c cs)
  show ?case
  proof (cases "lookup t cur = Some Dir")
    case True
    with Cons.prems have "lookup t' cur = Some Dir" by (simp add: same_dirs_def)
    with True Cons show ?thesis by simp
  next
    case False
    with Cons.prems have "lookup t' cur \<noteq> Some Dir" by (simp add: same_dirs_def)
    with False show ?thesis by (auto split: option.splits node.splits)
  qed
qed

text \<open>Where the walk arrives is a matter of the components alone.\<close>

lemma walk_Inr:
  "walk t cur cs = Inr p \<Longrightarrow>
     p = foldl (\<lambda>cur c. if c = ''..'' then butlast cur else cur @ [c]) cur cs"
proof (induction cs arbitrary: cur)
  case Nil
  then show ?case by simp
next
  case (Cons c cs)
  show ?case
  proof (cases "c = ''..''")
    case True
    with Cons.prems have "walk t (butlast cur) cs = Inr p"
      by (auto split: option.splits node.splits)
    from Cons.IH [OF this] True show ?thesis by simp
  next
    case False
    with Cons.prems have "walk t (cur @ [c]) cs = Inr p"
      by (auto split: option.splits node.splits if_splits)
    from Cons.IH [OF this] False show ?thesis by simp
  qed
qed

lemma foldl_nodots:
  "''..'' \<notin> set cs \<Longrightarrow>
     foldl (\<lambda>cur c. if c = ''..'' then butlast cur else cur @ [c]) cur cs = cur @ cs"
  by (induction cs arbitrary: cur) auto

lemma walk_nodots: "walk t cur cs = Inr p \<Longrightarrow> ''..'' \<notin> set cs \<Longrightarrow> p = cur @ cs"
  using walk_Inr [of t cur cs p] foldl_nodots [of cs cur] by simp

text \<open>A walk that arrives has met no component beyond the limit.\<close>

lemma walk_short:
  "walk t cur cs = Inr p \<Longrightarrow> c \<in> set cs \<Longrightarrow> length c \<le> NAME_MAX"
proof (induction cs arbitrary: cur)
  case Nil
  then show ?case by simp
next
  case (Cons a cs)
  have dots: "length ''..'' \<le> NAME_MAX" by (simp add: NAME_MAX_def)
  show ?case
  proof (cases "a = ''..''")
    case True
    with Cons.prems(1) have "walk t (butlast cur) cs = Inr p"
      by (auto split: option.splits node.splits)
    with Cons.IH Cons.prems(2) True dots show ?thesis by auto
  next
    case False
    with Cons.prems(1) have "walk t (cur @ [a]) cs = Inr p" and "length a \<le> NAME_MAX"
      by (auto split: option.splits node.splits if_splits)
    with Cons.IH Cons.prems(2) show ?thesis by auto
  qed
qed

lemma wf_fs_parent: "wf_fs t \<Longrightarrow> lookup t p \<noteq> None \<Longrightarrow> lookup t (butlast p) = Some Dir"
  by (cases "p = []") (auto simp: wf_fs_def lookup_None_iff)

lemma wf_fs_prefix:
  "wf_fs t \<Longrightarrow> lookup t p \<noteq> None \<Longrightarrow> k < length p \<Longrightarrow> lookup t (take k p) = Some Dir"
proof (induction "length p - k" arbitrary: p k)
  case 0
  then show ?case by simp
next
  case (Suc n)
  have par: "lookup t (butlast p) = Some Dir"
    using Suc.prems(1,2) by (rule wf_fs_parent)
  show ?case
  proof (cases "Suc k = length p")
    case True
    then have "k = length p - 1" by simp
    then have "take k p = butlast p" by (simp only: butlast_conv_take)
    with par show ?thesis by simp
  next
    case False
    with Suc.prems(3) have lt: "k < length (butlast p)" by simp
    have "lookup t (take k (butlast p)) = Some Dir"
      using Suc.hyps(1) [of "butlast p" k] Suc.hyps(2) Suc.prems(1) par lt by simp
    moreover have "take k (butlast p) = take k p"
      using lt by (simp add: take_butlast)
    ultimately show ?thesis by simp
  qed
qed

lemma walk_prefix:
  "''..'' \<notin> set cs \<Longrightarrow> (\<forall>c \<in> set cs. length c \<le> NAME_MAX) \<Longrightarrow>
     (\<forall>k<length cs. lookup t (cur @ take k cs) = Some Dir)
     \<Longrightarrow> walk t cur (cs @ rest) = walk t (cur @ cs) rest"
proof (induction cs arbitrary: cur)
  case Nil
  show ?case by simp
next
  case (Cons c cs)
  from Cons.prems(3) have "lookup t (cur @ take 0 (c # cs)) = Some Dir" by blast
  then have here: "lookup t cur = Some Dir" by simp
  have "lookup t ((cur @ [c]) @ take k cs) = Some Dir" if "k < length cs" for k
    using Cons.prems(3) [rule_format, of "Suc k"] that by simp
  then have "walk t (cur @ [c]) (cs @ rest) = walk t ((cur @ [c]) @ cs) rest"
    using Cons.IH [of "cur @ [c]"] Cons.prems(1,2) by simp
  moreover have "c \<noteq> ''..''" "\<not> NAME_MAX < length c" using Cons.prems(1,2) by auto
  ultimately show ?case using here by simp
qed

text \<open>A plain name in an existing directory: the walk stops at a name beyond the limit only.\<close>

lemma walk_plain:
  assumes "wf_fs t" and "lookup t d = Some Dir" and "''..'' \<notin> set d"
    and "\<forall>c \<in> set d. length c \<le> NAME_MAX" and "n \<noteq> ''..''"
  shows "walk t [] (d @ [n]) = (if NAME_MAX < length n then Inl OSError else Inr (d @ [n]))"
proof -
  have "\<forall>k<length d. lookup t ([] @ take k d) = Some Dir"
    using wf_fs_prefix [OF assms(1), of d] assms(2) by simp
  then have "walk t [] (d @ [n]) = walk t ([] @ d) [n]"
    using assms(3,4) by (intro walk_prefix)
  then show ?thesis using assms(2,5) by simp
qed

lemma walk_errors:
  "walk t cur cs = Inl e \<Longrightarrow> e = FileNotFoundError \<or> e = NotADirectoryError \<or> e = OSError"
proof (induction cs arbitrary: cur)
  case Nil
  then show ?case by simp
next
  case (Cons c cs)
  then show ?case
    by (auto split: option.splits node.splits if_splits)
qed

subsection \<open>Opening, writing, copying\<close>

lemma open_wb_Inl: "open_wb w parts = (w', Inl e) \<Longrightarrow> w' = w"
  by (auto simp: open_wb_def split: if_splits sum.splits option.splits node.splits)

lemma open_wb_Inr:
  assumes "open_wb w parts = (w', Inr p)"
  shows "walk (fs w) [] parts = Inr p" and "p \<noteq> []" and "lookup (fs w) p \<noteq> Some Dir"
    and "lookup (fs w) p = None \<longrightarrow> lookup (fs w) (butlast p) = Some Dir"
    and "fs w' = AList.update p (File []) (fs w)" and "calls w' = calls w"
    and "free w \<le> free w'" and "nul_free parts"
    and "free w' = free w + (case lookup (fs w) p of Some (File old) \<Rightarrow> length old | _ \<Rightarrow> 0)"
    and "path_len parts < PATH_MAX"
  using assms
  by (auto simp: open_wb_def nul_free_def split: if_splits sum.splits option.splits node.splits)

lemma open_wb_ok:
  assumes "nul_free parts" and "walk (fs w) [] parts = Inr p" and "lookup (fs w) p \<noteq> Some Dir"
    and "lookup (fs w) (butlast p) = Some Dir" and "path_len parts < PATH_MAX"
  shows "\<exists>w'. open_wb w parts = (w', Inr p)"
  using assms
  by (auto simp: open_wb_def nul_free_def split: if_splits sum.splits option.splits node.splits)

lemma open_wb_errors:
  "open_wb w parts = (w', Inl e) \<Longrightarrow> e \<noteq> FileExistsError"
  using walk_errors [of "fs w" "[]" parts]
  by (auto simp: open_wb_def split: if_splits sum.splits option.splits node.splits)

lemma write_chunk_Inl: "write_chunk w h buf = (w', Inl e) \<Longrightarrow> w' = w"
  by (auto simp: write_chunk_def split: if_splits option.splits node.splits)

lemma write_chunk_Inr:
  assumes "write_chunk w h buf = (w', Inr u)" and "lookup (fs w) h = Some (File old)"
  shows "fs w' = AList.update h (File (old @ buf)) (fs w)" and "free w' + length buf = free w"
    and "calls w' = calls w"
  using assms by (auto simp: write_chunk_def split: if_splits option.splits node.splits)

lemma write_chunk_ok:
  "lookup (fs w) h = Some (File old) \<Longrightarrow> length buf \<le> free w
     \<Longrightarrow> \<exists>w'. write_chunk w h buf = (w', Inr ())"
  by (simp add: write_chunk_def)

lemma update_same_file:
  "lookup t h = Some v \<Longrightarrow> h \<noteq> [] \<Longrightarrow> AList.update h v t = t"
  by (simp add: lookup_def update_triv)

lemma lookup_File_nonroot: "lookup t h = Some (File b) \<Longrightarrow> h \<noteq> []"
  by (auto simp: lookup_def split: if_splits)

text \<open>What the loop has done when it stops, however it stops.\<close>

lemma copy_loop_result:
  "copy_loop n h w s = ((w', s'), r) \<Longrightarrow> lookup (fs w) h = Some (File old) \<Longrightarrow>
     \<exists>pre post. data s = pre @ post \<and> fs w' = AList.update h (File (old @ pre)) (fs w) \<and>
       free w' + length pre = free w \<and> calls w' = calls w \<and> closed s' = closed s \<and>
       (r = Inr () \<and> 0 < n \<longrightarrow> post = [] \<and> data s' = [] \<and> \<not> closed s)"
proof (induction n h w s arbitrary: old rule: copy_loop.induct)
  case (1 n h w s)
  have hne: "h \<noteq> []" using "1.prems"(2) by (rule lookup_File_nonroot)
  show ?case
  proof (cases "closed s")
    case True
    then have "w' = w" "s' = s" "r = Inl ValueError"
      using "1.prems"(1) by (auto simp: copy_loop.simps [of n h w s] read_def)
    then show ?thesis
      using True update_same_file [OF "1.prems"(2) hne]
      by (intro exI [of _ "[]"] exI [of _ "data s"]) simp
  next
    case False
    define buf where "buf = take n (data s)"
    define s1 where "s1 = s\<lparr>data := drop n (data s)\<rparr>"
    have rd: "read s n = (s1, Inr buf)"
      using False by (simp add: read_def buf_def s1_def)
    show ?thesis
    proof (cases "buf = []")
      case True
      then have "w' = w" "s' = s1" "r = Inr ()"
        using "1.prems"(1) rd by (auto simp: copy_loop.simps [of n h w s])
      moreover have "0 < n \<longrightarrow> data s = []"
        using True by (auto simp: buf_def)
      ultimately show ?thesis
        using False update_same_file [OF "1.prems"(2) hne]
        by (intro exI [of _ "[]"] exI [of _ "data s"]) (auto simp: s1_def)
    next
      case nonempty: False
      obtain w1 r1 where wr: "write_chunk w h buf = (w1, r1)"
        by (cases "write_chunk w h buf")
      show ?thesis
      proof (cases r1)
        case (Inl e)
        then have "w' = w1" "s' = s1" "r = Inl e"
          using "1.prems"(1) rd nonempty wr by (auto simp: copy_loop.simps [of n h w s])
        moreover have "w1 = w" using wr Inl write_chunk_Inl by blast
        ultimately show ?thesis
          using False update_same_file [OF "1.prems"(2) hne]
          by (intro exI [of _ "[]"] exI [of _ "data s"]) (auto simp: s1_def)
      next
        case (Inr u)
        then have rec: "copy_loop n h w1 s1 = ((w', s'), r)"
          using "1.prems"(1) rd nonempty wr by (auto simp: copy_loop.simps [of n h w s])
        note wc = write_chunk_Inr [OF wr [unfolded Inr] "1.prems"(2)]
        have l1: "lookup (fs w1) h = Some (File (old @ buf))"
          using wc(1) hne by (simp add: lookup_update)
        from "1.IH" [OF rd [symmetric] refl nonempty wr [symmetric] Inr rec l1]
        obtain pre post where ih: "data s1 = pre @ post"
          "fs w' = AList.update h (File ((old @ buf) @ pre)) (fs w1)"
          "free w' + length pre = free w1" "calls w' = calls w1" "closed s' = closed s1"
          "r = Inr () \<and> 0 < n \<longrightarrow> post = [] \<and> data s' = [] \<and> \<not> closed s1"
          by blast
        have "data s = (buf @ pre) @ post"
          using ih(1) append_take_drop_id [of n "data s"] by (simp add: s1_def buf_def)
        moreover have "fs w' = AList.update h (File (old @ buf @ pre)) (fs w)"
          using ih(2) wc(1) by simp
        moreover have "free w' + length (buf @ pre) = free w"
          using ih(3) wc(2) by simp
        moreover have "calls w' = calls w" using ih(4) wc(3) by simp
        moreover have "closed s' = closed s" using ih(5) by (simp add: s1_def)
        moreover have "r = Inr () \<and> 0 < n \<longrightarrow> post = [] \<and> data s' = [] \<and> \<not> closed s"
          using ih(6) by (simp add: s1_def)
        ultimately show ?thesis by blast
      qed
    qed
  qed
qed

text \<open>The loop succeeds when the stream is open and the disk has room.\<close>

lemma copy_loop_ok:
  "\<not> closed s \<Longrightarrow> length (data s) \<le> free w \<Longrightarrow> lookup (fs w) h = Some (File old)
     \<Longrightarrow> \<exists>w' s'. copy_loop n h w s = ((w', s'), Inr ())"
proof (induction n h w s arbitrary: old rule: copy_loop.induct)
  case (1 n h w s)
  have hne: "h \<noteq> []" using "1.prems"(3) by (rule lookup_File_nonroot)
  define buf where "buf = take n (data s)"
  define s1 where "s1 = s\<lparr>data := drop n (data s)\<rparr>"
  have rd: "read s n = (s1, Inr buf)"
    using "1.prems"(1) by (simp add: read_def buf_def s1_def)
  show ?case
  proof (cases "buf = []")
    case True
    then show ?thesis using rd by (simp add: copy_loop.simps [of n h w s])
  next
    case False
    have len: "length buf + length (data s1) = length (data s)"
      by (simp add: buf_def s1_def)
    then have "length buf \<le> free w" using "1.prems"(2) by simp
    then obtain w1 where wr: "write_chunk w h buf = (w1, Inr ())"
      using write_chunk_ok [OF "1.prems"(3)] by blast
    note wc = write_chunk_Inr [OF wr "1.prems"(3)]
    have l1: "lookup (fs w1) h = Some (File (old @ buf))"
      using wc(1) hne by (simp add: lookup_update)
    have "length (data s1) \<le> free w1" using len wc(2) "1.prems"(2) by simp
    moreover have "\<not> closed s1" using "1.prems"(1) by (simp add: s1_def)
    ultimately obtain w' s' where "copy_loop n h w1 s1 = ((w', s'), Inr ())"
      using "1.IH" [OF rd [symmetric] refl False wr [symmetric] refl _ _ l1] by blast
    then show ?thesis
      using rd False wr by (simp add: copy_loop.simps [of n h w s])
  qed
qed

lemma copy_loop_closed:
  "closed s \<Longrightarrow> copy_loop n h w s = ((w, s), Inl ValueError)"
  by (simp add: copy_loop.simps [of n h w s] read_def)

lemma copy_loop_full:
  "\<not> closed s \<Longrightarrow> free w < length (data s) \<Longrightarrow> lookup (fs w) h = Some (File old) \<Longrightarrow> 0 < n
     \<Longrightarrow> \<exists>w' s'. copy_loop n h w s = ((w', s'), Inl OSError)"
proof (induction n h w s arbitrary: old rule: copy_loop.induct)
  case (1 n h w s)
  have hne: "h \<noteq> []" using "1.prems"(3) by (rule lookup_File_nonroot)
  define buf where "buf = take n (data s)"
  define s1 where "s1 = s\<lparr>data := drop n (data s)\<rparr>"
  have rd: "read s n = (s1, Inr buf)"
    using "1.prems"(1) by (simp add: read_def buf_def s1_def)
  have ne: "buf \<noteq> []" using "1.prems"(2,4) by (auto simp: buf_def)
  have len: "length buf + length (data s1) = length (data s)"
    by (simp add: buf_def s1_def)
  show ?case
  proof (cases "length buf \<le> free w")
    case False
    then have "write_chunk w h buf = (w, Inl OSError)"
      using "1.prems"(3) by (simp add: write_chunk_def)
    then show ?thesis using rd ne by (simp add: copy_loop.simps [of n h w s])
  next
    case True
    then obtain w1 where wr: "write_chunk w h buf = (w1, Inr ())"
      using write_chunk_ok [OF "1.prems"(3)] by blast
    note wc = write_chunk_Inr [OF wr "1.prems"(3)]
    have l1: "lookup (fs w1) h = Some (File (old @ buf))"
      using wc(1) hne by (simp add: lookup_update)
    have "free w1 < length (data s1)" using len wc(2) "1.prems"(2) by simp
    moreover have "\<not> closed s1" using "1.prems"(1) by (simp add: s1_def)
    ultimately obtain w' s' where "copy_loop n h w1 s1 = ((w', s'), Inl OSError)"
      using "1.IH" [OF rd [symmetric] refl ne wr [symmetric] refl _ _ l1 "1.prems"(4)] by blast
    then show ?thesis
      using rd ne wr by (simp add: copy_loop.simps [of n h w s])
  qed
qed

section \<open>The loop over the uploads\<close>

lemma COPY_BUFSIZE_pos: "0 < COPY_BUFSIZE"
  by (simp add: COPY_BUFSIZE_def)

lemma dest_same_dirs: "same_dirs t t' \<Longrightarrow> dest t' d n = dest t d n"
proof -
  assume sd: "same_dirs t t'"
  show ?thesis
  proof (cases "walk t [] (joinpath d n)")
    case (Inr p)
    then have "walk t' [] (joinpath d n) = Inr p" using walk_same_dirs [OF sd] by blast
    with Inr show ?thesis by (simp add: dest_def)
  next
    case (Inl e)
    have "walk t' [] (joinpath d n) \<noteq> Inr p" for p
      using walk_same_dirs [OF sd, of "[]" "joinpath d n" p] Inl by simp
    then obtain e' where "walk t' [] (joinpath d n) = Inl e'"
      by (cases "walk t' [] (joinpath d n)") auto
    with Inl show ?thesis by (simp add: dest_def)
  qed
qed

lemma copy_upload_closed:
  "copy_upload d w u = ((w', u'), r) \<Longrightarrow> closed (fileobj u') \<and> filename u' = filename u"
  by (auto simp: copy_upload_def close_def split: prod.splits sum.splits)

text \<open>What one pass of the loop body leaves behind, however it ends.\<close>

lemma copy_upload_fs:
  assumes "copy_upload d w u = ((w', u'), r)"
  shows "calls w' = calls w \<and>
     (fs w' = fs w \<or>
      (\<exists>p pre post. walk (fs w) [] (joinpath d (filename u)) = Inr p \<and> p \<noteq> [] \<and>
         lookup (fs w) p \<noteq> Some Dir \<and>
         (lookup (fs w) p = None \<longrightarrow> lookup (fs w) (butlast p) = Some Dir) \<and>
         data (fileobj u) = pre @ post \<and> fs w' = AList.update p (File pre) (fs w)))"
proof -
  obtain w1 r1 where op: "open_wb w (joinpath d (filename u)) = (w1, r1)"
    by (cases "open_wb w (joinpath d (filename u))")
  show ?thesis
  proof (cases r1)
    case (Inl e)
    with op have "w1 = w" using open_wb_Inl by blast
    moreover have "w' = w1"
      using assms op Inl by (simp add: copy_upload_def)
    ultimately show ?thesis by simp
  next
    case (Inr p)
    note o = open_wb_Inr [OF op [unfolded Inr]]
    obtain s' where cp: "copy_loop COPY_BUFSIZE p w1 (fileobj u) = ((w', s'), r)"
      using assms op Inr
      by (auto simp: copy_upload_def copyfileobj_def split: prod.splits)
    have l1: "lookup (fs w1) p = Some (File [])"
      using o(2,5) by (simp add: lookup_update)
    from copy_loop_result [OF cp l1]
    obtain pre post where r: "data (fileobj u) = pre @ post"
      "fs w' = AList.update p (File ([] @ pre)) (fs w1)" "calls w' = calls w1"
      by blast
    have "fs w' = AList.update p (File pre) (fs w)"
      using r(2) o(5) by simp
    with r(1,3) o show ?thesis by auto
  qed
qed

lemma copy_upload_Inr:
  assumes "copy_upload d w u = ((w', u'), Inr x)"
  shows "walk (fs w) [] (joinpath d (filename u)) = Inr (dest (fs w) d (filename u))"
    and "dest (fs w) d (filename u) \<noteq> []"
    and "lookup (fs w) (dest (fs w) d (filename u)) \<noteq> Some Dir"
    and "lookup (fs w) (dest (fs w) d (filename u)) = None \<longrightarrow>
           lookup (fs w) (butlast (dest (fs w) d (filename u))) = Some Dir"
    and "fs w' = AList.update (dest (fs w) d (filename u)) (File (data (fileobj u))) (fs w)"
    and "calls w' = calls w" and "u' = drained u" and "\<not> closed (fileobj u)"
    and "nul_free (joinpath d (filename u))"
    and "free w \<le> free w' + length (data (fileobj u))"
proof -
  obtain w1 r1 where op: "open_wb w (joinpath d (filename u)) = (w1, r1)"
    by (cases "open_wb w (joinpath d (filename u))")
  have "\<exists>p. r1 = Inr p"
    using assms op by (cases r1) (auto simp: copy_upload_def)
  then obtain p where Inr: "r1 = Inr p" by blast
  note o = open_wb_Inr [OF op [unfolded Inr]]
  have p: "dest (fs w) d (filename u) = p"
    using o(1) by (simp add: dest_def)
  obtain s' where cp: "copy_loop COPY_BUFSIZE p w1 (fileobj u) = ((w', s'), Inr ())"
    and u': "u' = u\<lparr>fileobj := close s'\<rparr>"
    using assms op Inr
    by (auto simp: copy_upload_def copyfileobj_def split: prod.splits)
  have l1: "lookup (fs w1) p = Some (File [])"
    using o(2,5) by (simp add: lookup_update)
  from copy_loop_result [OF cp l1] COPY_BUFSIZE_pos
  obtain pre post where r: "data (fileobj u) = pre @ post"
    "fs w' = AList.update p (File ([] @ pre)) (fs w1)" "calls w' = calls w1"
    "free w' + length pre = free w1" "post = []" "data s' = []" "\<not> closed (fileobj u)"
    by blast
  have "close s' = \<lparr>data = [], closed = True\<rparr>"
    using r(6) by (cases s') (simp add: close_def)
  with u' show "u' = drained u" by (simp add: drained_def)
  show "fs w' = AList.update (dest (fs w) d (filename u)) (File (data (fileobj u))) (fs w)"
    using r(1,2,5) o(5) p by simp
  show "free w \<le> free w' + length (data (fileobj u))"
    using r(1,4,5) o(7) by simp
  show "walk (fs w) [] (joinpath d (filename u)) = Inr (dest (fs w) d (filename u))"
    "dest (fs w) d (filename u) \<noteq> []"
    "lookup (fs w) (dest (fs w) d (filename u)) \<noteq> Some Dir"
    "lookup (fs w) (dest (fs w) d (filename u)) = None \<longrightarrow>
           lookup (fs w) (butlast (dest (fs w) d (filename u))) = Some Dir"
    "calls w' = calls w" "\<not> closed (fileobj u)" "nul_free (joinpath d (filename u))"
    using o r(3,7) p by simp_all
qed

text \<open>The outcome of the body once the destination is open.\<close>

lemma copy_upload_outcome:
  assumes op: "open_wb w (joinpath d (filename u)) = (w1, Inr p)"
  shows "snd (copy_upload d w u) =
     (if closed (fileobj u) then Inl ValueError
      else if free w1 < length (data (fileobj u)) then Inl OSError else Inr ())"
proof -
  note o = open_wb_Inr [OF op]
  have l1: "lookup (fs w1) p = Some (File [])"
    using o(2,5) by (simp add: lookup_update)
  have cu: "snd (copy_upload d w u) = snd (copy_loop COPY_BUFSIZE p w1 (fileobj u))"
    using op by (simp add: copy_upload_def copyfileobj_def split: prod.splits)
  show ?thesis
  proof (cases "closed (fileobj u)")
    case True
    then show ?thesis using cu by (simp add: copy_loop_closed)
  next
    case False
    show ?thesis
    proof (cases "free w1 < length (data (fileobj u))")
      case True
      from copy_loop_full [OF False True l1 COPY_BUFSIZE_pos] show ?thesis
        using cu False True by auto
    next
      case nf: False
      then have "length (data (fileobj u)) \<le> free w1" by simp
      from copy_loop_ok [OF False this l1, of COPY_BUFSIZE]
      obtain w' s' where "copy_loop COPY_BUFSIZE p w1 (fileobj u) = ((w', s'), Inr ())"
        by blast
      then show ?thesis
        using cu False nf by simp
    qed
  qed
qed

lemma copy_upload_not_exists: "snd (copy_upload d w u) \<noteq> Inl FileExistsError"
proof (cases "open_wb w (joinpath d (filename u))")
  case (Pair w1 r1)
  show ?thesis
  proof (cases r1)
    case (Inl e)
    with Pair open_wb_errors [of w "joinpath d (filename u)" w1 e] show ?thesis
      by (simp add: copy_upload_def)
  next
    case (Inr p)
    with Pair copy_upload_outcome [of w d u w1 p] show ?thesis by simp
  qed
qed

lemma copy_upload_inv:
  assumes "copy_upload d w u = ((w', u'), r)"
  shows "keeps (fs w) (fs w')" and "same_dirs (fs w) (fs w')"
    and "wf_fs (fs w) \<Longrightarrow> wf_fs (fs w')" and "calls w' = calls w"
proof -
  note c = copy_upload_fs [OF assms]
  show "calls w' = calls w" using c by (rule conjunct1)
  from c consider (same) "fs w' = fs w"
    | (upd) p pre where "lookup (fs w) p \<noteq> Some Dir"
      "lookup (fs w) p = None \<longrightarrow> lookup (fs w) (butlast p) = Some Dir"
      "fs w' = AList.update p (File pre) (fs w)"
    by (elim conjE disjE exE) metis+
  note alt = this
  show "keeps (fs w) (fs w')"
  proof (cases rule: alt)
    case same then show ?thesis by simp
  next
    case upd then show ?thesis by (simp add: keeps_update)
  qed
  show "same_dirs (fs w) (fs w')"
  proof (cases rule: alt)
    case same then show ?thesis by simp
  next
    case upd then show ?thesis by (simp add: same_dirs_update_file)
  qed
  show "wf_fs (fs w')" if wf: "wf_fs (fs w)"
  proof (cases rule: alt)
    case same with wf show ?thesis by simp
  next
    case upd
    have "lookup (fs w) (butlast p) = Some Dir"
      using upd(2) wf_fs_parent [OF wf, of p] by blast
    then show ?thesis using wf upd(1,3) by (simp add: wf_fs_update)
  qed
qed

lemma store_Nil [simp]: "store d t0 t [] = t"
  by (simp add: store_def)

lemma store_Cons:
  "store d t0 t (u # us) =
     store d t0 (AList.update (dest t0 d (filename u)) (File (data (fileobj u))) t) us"
  by (simp add: store_def)

lemma store_snoc:
  "store d t0 t (us @ [u]) =
     AList.update (dest t0 d (filename u)) (File (data (fileobj u))) (store d t0 t us)"
  by (simp add: store_def)

lemma copy_all_inv:
  "copy_all d w files = ((w', files'), r) \<Longrightarrow>
     keeps (fs w) (fs w') \<and> same_dirs (fs w) (fs w') \<and> (wf_fs (fs w) \<longrightarrow> wf_fs (fs w')) \<and>
     calls w' = calls w \<and> map filename files' = map filename files"
proof (induction files arbitrary: w w' files' r)
  case Nil
  then show ?case by simp
next
  case (Cons u us)
  obtain w1 u1 r1 where cu: "copy_upload d w u = ((w1, u1), r1)"
    by (metis surj_pair)
  note i = copy_upload_inv [OF cu] copy_upload_closed [OF cu]
  show ?case
  proof (cases r1)
    case (Inl e)
    with Cons.prems cu have "w' = w1" "files' = u1 # us" by auto
    with i show ?thesis by simp
  next
    case (Inr x)
    obtain w2 us2 r2 where ca: "copy_all d w1 us = ((w2, us2), r2)"
      by (metis surj_pair)
    with Cons.prems cu Inr have eq: "w' = w2" "files' = u1 # us2" by auto
    from Cons.IH [OF ca] have ih: "keeps (fs w1) (fs w2)" "same_dirs (fs w1) (fs w2)"
      "wf_fs (fs w1) \<longrightarrow> wf_fs (fs w2)" "calls w2 = calls w1"
      "map filename us2 = map filename us" by blast+
    show ?thesis
      using i ih eq keeps_trans [OF i(1) ih(1)] same_dirs_trans [OF i(2) ih(2)] by simp
  qed
qed

text \<open>A loop that comes to its end has stored every upload at its destination.\<close>

lemma copy_all_Inr:
  "copy_all d w files = ((w', files'), Inr x) \<Longrightarrow>
     fs w' = store d (fs w) (fs w) files \<and> files' = map drained files \<and>
     (\<forall>u \<in> set files. \<not> closed (fileobj u) \<and>
        walk (fs w) [] (joinpath d (filename u)) = Inr (dest (fs w) d (filename u)) \<and>
        dest (fs w) d (filename u) \<noteq> [] \<and>
        lookup (fs w) (dest (fs w) d (filename u)) \<noteq> Some Dir \<and>
        nul_free (joinpath d (filename u)))"
proof (induction files arbitrary: w w' files')
  case Nil
  then show ?case by simp
next
  case (Cons u us)
  obtain w1 u1 r1 where cu: "copy_upload d w u = ((w1, u1), r1)"
    by (metis surj_pair)
  obtain w2 us2 r2 where ca: "copy_all d w1 us = ((w2, us2), r2)"
    by (metis surj_pair)
  have r1: "r1 = Inr ()" using Cons.prems cu by (cases r1) auto
  have eq: "w' = w2" "files' = u1 # us2" "r2 = Inr x"
    using Cons.prems cu ca r1 by auto
  note c = copy_upload_Inr [OF cu [unfolded r1]]
  note sd = copy_upload_inv(2) [OF cu]
  have dst: "dest (fs w1) d n = dest (fs w) d n" for n
    using sd by (rule dest_same_dirs)
  have lk: "lookup (fs w1) p = Some Dir \<longleftrightarrow> lookup (fs w) p = Some Dir" for p
    using sd by (simp add: same_dirs_def)
  have wk: "walk (fs w1) [] cs = Inr p \<longleftrightarrow> walk (fs w) [] cs = Inr p" for cs p
    using walk_same_dirs [OF sd, of "[]" cs p] by simp
  from Cons.IH [OF ca [unfolded eq(3)]]
  have ih: "fs w2 = store d (fs w1) (fs w1) us" "us2 = map drained us"
    "\<forall>u \<in> set us. \<not> closed (fileobj u) \<and>
        walk (fs w1) [] (joinpath d (filename u)) = Inr (dest (fs w1) d (filename u)) \<and>
        dest (fs w1) d (filename u) \<noteq> [] \<and>
        lookup (fs w1) (dest (fs w1) d (filename u)) \<noteq> Some Dir \<and>
        nul_free (joinpath d (filename u))"
    by blast+
  have "store d (fs w1) (fs w1) us = store d (fs w) (fs w1) us"
    by (simp add: store_def dst)
  then have "fs w' = store d (fs w) (fs w) (u # us)"
    using ih(1) eq(1) c(5) by (simp add: store_Cons)
  moreover have "files' = map drained (u # us)"
    using eq(2) ih(2) c(7) by simp
  moreover have "\<not> closed (fileobj v) \<and>
        walk (fs w) [] (joinpath d (filename v)) = Inr (dest (fs w) d (filename v)) \<and>
        dest (fs w) d (filename v) \<noteq> [] \<and>
        lookup (fs w) (dest (fs w) d (filename v)) \<noteq> Some Dir \<and>
        nul_free (joinpath d (filename v))" if "v \<in> set (u # us)" for v
  proof (cases "v = u")
    case True
    then show ?thesis using c by simp
  next
    case False
    with that have "v \<in> set us" by simp
    with ih(3) show ?thesis by (simp add: dst lk wk)
  qed
  ultimately show ?case by blast
qed

lemma store_keys:
  "set (map fst (store d t0 t us)) = set (map fst t) \<union> (\<lambda>u. dest t0 d (filename u)) ` set us"
proof (induction us rule: rev_induct)
  case Nil
  show ?case by simp
next
  case (snoc u us)
  have "set (map fst (AList.update k v al)) = insert k (set (map fst al))" for k v
    and al :: filesystem
    using dom_update [of k v al] by simp
  with snoc show ?case by (simp add: store_snoc)
qed

lemma store_lookup:
  "q \<noteq> [] \<Longrightarrow> lookup (store d t0 t us) q =
     (if filter (\<lambda>u. dest t0 d (filename u) = q) us = [] then lookup t q
      else Some (File (data (fileobj (last (filter (\<lambda>u. dest t0 d (filename u) = q) us))))))"
proof (induction us rule: rev_induct)
  case Nil
  show ?case by simp
next
  case (snoc u us)
  show ?case
  proof (cases "dest t0 d (filename u) = q")
    case True
    then show ?thesis
      using snoc.prems by (simp add: store_snoc lookup_update)
  next
    case False
    then show ?thesis
      using snoc by (simp add: store_snoc lookup_update)
  qed
qed

lemma request_dir_facts:
  "request_dir rid \<noteq> []" "''..'' \<notin> set (request_dir rid)" "nul_free (request_dir rid)"
  "length (request_dir rid) = 4"
  using uuid_str_plain [of rid] uuid_str_nul [of rid]
  by (auto simp: request_dir_eq plain_name_def nul_free_def)

text \<open>The steps of a call that returns a response.\<close>

lemma check_file_list_Inr:
  assumes "check_file_list lib rid w files = ((w', files'), Inr resp)"
  obtains t1 w2 fc v where
    "os_makedirs (fs w) (request_dir rid) = (t1, Inr ())"
    "copy_all (request_dir rid) (w\<lparr>fs := t1\<rparr>) files = ((w2, files'), Inr ())"
    "FileChecker lib (fs w2) ''/home/app/file_checker_spec'' = Inr fc"
    "check_files lib fc (fs w2) (glob_star (fs w2) (request_dir rid)) ''bodc'' = Inr v"
    "w' = w2\<lparr>calls := calls w2 @ [(glob_star (fs w2) (request_dir rid), ''bodc'')]\<rparr>"
    "resp = [''results'' \<mapsto> v]"
  using assms unfolding check_file_list_def Let_def
  by (auto split: prod.splits sum.splits)

lemma filter_distinct_key:
  "distinct (map f xs) \<Longrightarrow> x \<in> set xs \<Longrightarrow> filter (\<lambda>y. f y = f x) xs = [x]"
proof (induction xs)
  case Nil
  then show ?case by simp
next
  case (Cons a xs)
  show ?case
  proof (cases "x = a")
    case True
    have "filter (\<lambda>y. f y = f a) xs = []"
      using Cons.prems(1) by (force simp: filter_empty_conv image_iff)
    with True show ?thesis by simp
  next
    case False
    with Cons.prems have "x \<in> set xs" "f a \<noteq> f x" by auto
    with Cons show ?thesis by simp
  qed
qed

text \<open>
  Plain names in a fresh directory: what the directory holds after the loop.
\<close>

lemma stored_plain:
  assumes mk: "os_makedirs t d = (t1, Inr ())" and wf: "wf_fs t"
    and d: "d \<noteq> []" "''..'' \<notin> set d"
    and cp: "copy_all d (w\<lparr>fs := t1\<rparr>) files = ((w2, files'), Inr ())"
    and plain: "\<forall>u \<in> set files. plain_name (filename u)"
  shows "set (glob_star (fs w2) d) = (\<lambda>u. d @ [filename u]) ` set files"
    and "distinct (glob_star (fs w2) d)"
    and "lookup (fs w2) (d @ [n]) =
           (if filter (\<lambda>u. filename u = n) files = [] then None
            else Some (File (data (fileobj (last (filter (\<lambda>u. filename u = n) files))))))"
proof -
  note fresh = os_makedirs_fresh [OF mk wf d(1)]
  have dst: "dest t1 d (filename u) = d @ [filename u]" if "u \<in> set files" for u
  proof -
    from plain that have p: "plain_name (filename u)" by blast
    then have nd: "filename u \<noteq> ''..''" by (simp add: plain_name_def)
    from copy_all_Inr [OF cp] that
    have "walk t1 [] (joinpath d (filename u)) = Inr (dest t1 d (filename u))" by simp
    then have "walk t1 [] (d @ [filename u]) = Inr (dest t1 d (filename u))"
      by (simp add: joinpath_plain [OF p])
    from walk_nodots [OF this] d(2) nd show ?thesis by simp
  qed
  from copy_all_Inr [OF cp] have fs2: "fs w2 = store d t1 t1 files" by simp
  have wf2: "wf_fs (fs w2)"
    using copy_all_inv [OF cp] fresh by simp
  show "distinct (glob_star (fs w2) d)"
    using wf2 by (rule distinct_glob_star)
  have none: "p \<in> set (map fst t1) \<Longrightarrow> \<not> (p \<noteq> [] \<and> butlast p = d)" for p
    using fresh set_glob_star [of t1 d] by auto
  have "set (glob_star (fs w2) d) =
      {p \<in> set (map fst t1) \<union> (\<lambda>u. dest t1 d (filename u)) ` set files. p \<noteq> [] \<and> butlast p = d}"
    by (simp only: set_glob_star fs2 store_keys)
  also have "\<dots> = (\<lambda>u. d @ [filename u]) ` set files"
    using none dst by auto
  finally show "set (glob_star (fs w2) d) = (\<lambda>u. d @ [filename u]) ` set files" .
  have flt: "filter (\<lambda>u. dest t1 d (filename u) = d @ [n]) files = filter (\<lambda>u. filename u = n) files"
    by (rule filter_cong) (auto simp: dst)
  have "lookup t1 (d @ [n]) = None"
    using none [of "d @ [n]"] by (auto simp: lookup_None_iff)
  then show "lookup (fs w2) (d @ [n]) =
           (if filter (\<lambda>u. filename u = n) files = [] then None
            else Some (File (data (fileobj (last (filter (\<lambda>u. filename u = n) files))))))"
    by (simp add: fs2 store_lookup flt)
qed

text \<open>The body of the loop for a plain name, in an existing request directory.\<close>

lemma copy_upload_plain_name:
  assumes run: "copy_upload (request_dir rid) w u = ((w', u'), r)"
    and wf: "wf_fs (fs w)" and dir: "lookup (fs w) (request_dir rid) = Some Dir"
    and plain: "plain_name (filename u)" and nul: "CHR 0x00 \<notin> set (filename u)"
  shows "NAME_MAX < length (filename u) \<Longrightarrow> r = Inl OSError \<and> w' = w"
    and "length (filename u) \<le> NAME_MAX \<Longrightarrow>
           lookup (fs w) (request_dir rid @ [filename u]) = Some Dir \<Longrightarrow>
           r = Inl IsADirectoryError \<and> w' = w"
    and "length (filename u) \<le> NAME_MAX \<Longrightarrow>
           lookup (fs w) (request_dir rid @ [filename u]) \<noteq> Some Dir \<Longrightarrow>
           (\<exists>pre post. data (fileobj u) = pre @ post \<and>
              fs w' = AList.update (request_dir rid @ [filename u]) (File pre) (fs w) \<and>
              free w' + length pre =
                free w + (case lookup (fs w) (request_dir rid @ [filename u]) of
                            Some (File old) \<Rightarrow> length old | _ \<Rightarrow> 0) \<and>
              (r = Inr () \<longrightarrow> post = [])) \<and>
           r = (if closed (fileobj u) then Inl ValueError
                else if free w + (case lookup (fs w) (request_dir rid @ [filename u]) of
                                    Some (File old) \<Rightarrow> length old | _ \<Rightarrow> 0)
                        < length (data (fileobj u)) then Inl OSError
                else Inr ())"
proof -
  let ?d = "request_dir rid"
  let ?p = "?d @ [filename u]"
  have jp: "joinpath ?d (filename u) = ?p" using plain by (rule joinpath_plain)
  have nd: "filename u \<noteq> ''..''" using plain by (simp add: plain_name_def)
  have wk: "walk (fs w) [] ?p = (if NAME_MAX < length (filename u) then Inl OSError else Inr ?p)"
    using wf dir request_dir_facts(2) _ nd by (rule walk_plain) (simp add: request_dir_short)
  have nf: "\<not> (\<exists>c \<in> set ?p. CHR 0x00 \<in> set c)"
    using request_dir_facts(3) [of rid] nul by (auto simp: nul_free_def)
  {
    assume long: "NAME_MAX < length (filename u)"
    have "open_wb w ?p = (w, Inl OSError)"
      using nf wk long by (simp add: open_wb_def)
    then show "r = Inl OSError \<and> w' = w"
      using run by (simp add: copy_upload_def jp)
  }
  assume short: "length (filename u) \<le> NAME_MAX"
  then have wk': "walk (fs w) [] ?p = Inr ?p" using wk by simp
  have pl: "\<not> PATH_MAX \<le> path_len ?p"
    using short by (simp add: path_len_request NAME_MAX_def PATH_MAX_def)
  {
    assume "lookup (fs w) ?p = Some Dir"
    then have "open_wb w ?p = (w, Inl IsADirectoryError)"
      using nf wk' pl by (simp add: open_wb_def)
    then show "r = Inl IsADirectoryError \<and> w' = w"
      using run by (simp add: copy_upload_def jp)
  }
  assume nodir: "lookup (fs w) ?p \<noteq> Some Dir"
  let ?old = "case lookup (fs w) ?p of Some (File old) \<Rightarrow> length old | _ \<Rightarrow> 0"
  have "nul_free (joinpath ?d (filename u))" using nf by (simp add: jp nul_free_def)
  moreover have "lookup (fs w) (butlast ?p) = Some Dir" using dir by simp
  moreover have "path_len (joinpath ?d (filename u)) < PATH_MAX" using pl by (simp add: jp)
  ultimately obtain w1 where op: "open_wb w (joinpath ?d (filename u)) = (w1, Inr ?p)"
    using open_wb_ok [of "joinpath ?d (filename u)" w ?p] wk' nodir by (auto simp: jp)
  note o = open_wb_Inr [OF op]
  have l1: "lookup (fs w1) ?p = Some (File [])"
    using o(5) by (simp add: lookup_update)
  obtain s' where cp: "copy_loop COPY_BUFSIZE ?p w1 (fileobj u) = ((w', s'), r)"
    using run op by (auto simp: copy_upload_def copyfileobj_def split: prod.splits)
  from copy_loop_result [OF cp l1] COPY_BUFSIZE_pos
  obtain pre post where res: "data (fileobj u) = pre @ post"
    "fs w' = AList.update ?p (File ([] @ pre)) (fs w1)"
    "free w' + length pre = free w1" "r = Inr () \<longrightarrow> post = []"
    by blast
  have "fs w' = AList.update ?p (File pre) (fs w)"
    using res(2) o(5) by simp
  moreover have "free w' + length pre = free w + ?old"
    using res(3) o(9) by simp
  ultimately have first: "\<exists>pre post. data (fileobj u) = pre @ post \<and>
              fs w' = AList.update ?p (File pre) (fs w) \<and>
              free w' + length pre = free w + ?old \<and> (r = Inr () \<longrightarrow> post = [])"
    using res(1,4) by blast
  have "r = snd (copy_upload ?d w u)" using run by simp
  also have "\<dots> = (if closed (fileobj u) then Inl ValueError
      else if free w1 < length (data (fileobj u)) then Inl OSError else Inr ())"
    using op by (rule copy_upload_outcome)
  finally have second: "r = (if closed (fileobj u) then Inl ValueError
                else if free w + ?old < length (data (fileobj u)) then Inl OSError
                else Inr ())"
    using o(9) by simp
  from first second show "(\<exists>pre post. data (fileobj u) = pre @ post \<and>
              fs w' = AList.update ?p (File pre) (fs w) \<and>
              free w' + length pre = free w + ?old \<and> (r = Inr () \<longrightarrow> post = [])) \<and>
           r = (if closed (fileobj u) then Inl ValueError
                else if free w + ?old < length (data (fileobj u)) then Inl OSError
                else Inr ())"
    by (rule conjI)
qed

section \<open>Simplification rules for concrete inputs\<close>

lemma uuid_str_neq:
  "length s \<noteq> 36 \<Longrightarrow> uuid_str u \<noteq> s" "length s \<noteq> 36 \<Longrightarrow> s \<noteq> uuid_str u"
  using length_uuid_str [of u] by auto

lemma uuid_str_nul_simp: "CHR 0x00 \<in> set (uuid_str u) \<longleftrightarrow> False"
  using uuid_str_nul by simp

lemmas run_simps = check_file_list_def request_dir_eq os_makedirs.simps os_mkdir_def lookup_def
  copy_upload_def joinpath_def is_absolute_def path_parts_def open_wb_def copyfileobj_def
  copy_loop.simps read_def write_chunk_def close_def COPY_BUFSIZE_def glob_star_def
  Let_def uuid_str_neq uuid_str_nul_simp lib_ok_def w0_def up_def
  NAME_MAX_def PATH_MAX_def path_len_def length_uuid_str

section \<open>Entries of the request directory\<close>

lemma glob_star_entries:
  "set (glob_star t d) = {p. lookup t p \<noteq> None \<and> p \<noteq> [] \<and> butlast p = d}"
  by (auto simp: set_glob_star lookup_None_iff)

lemma length_glob_star_plain:
  assumes "set (glob_star t d) = (\<lambda>u. d @ [filename u]) ` set files"
    and "distinct (glob_star t d)"
  shows "length (glob_star t d) = card (filename ` set files)"
proof -
  have "inj_on (\<lambda>n. d @ [n]) (filename ` set files)"
    by (simp add: inj_on_def)
  then have "card ((\<lambda>n. d @ [n]) ` filename ` set files) = card (filename ` set files)"
    by (rule card_image)
  moreover have "(\<lambda>n. d @ [n]) ` filename ` set files = (\<lambda>u. d @ [filename u]) ` set files"
    by (simp add: image_image)
  ultimately show ?thesis
    using assms distinct_card [of "glob_star t d"] by simp
qed

section \<open>Names that leave the directory\<close>

lemma split_sep_prefix:
  "c \<notin> set a \<Longrightarrow> split_sep c (a @ c # b) = a # split_sep c b"
  by (induction a) (auto split: list.splits)

lemma path_parts_dotdot: "plain_name n \<Longrightarrow> path_parts (''../'' @ n) = [''..'', n]"
  by (simp add: path_parts_def plain_name_def split_sep_none)

lemma path_parts_slash: "plain_name n \<Longrightarrow> path_parts (''/'' @ n) = [n]"
  by (simp add: path_parts_def plain_name_def split_sep_none)

lemma joinpath_dotdot: "plain_name n \<Longrightarrow> joinpath d (''../'' @ n) = d @ [''..'', n]"
  using path_parts_dotdot [of n] by (simp add: joinpath_def is_absolute_def)

lemma joinpath_slash: "plain_name n \<Longrightarrow> joinpath d (''/'' @ n) = [n]"
  using path_parts_slash [of n] by (simp add: joinpath_def is_absolute_def)

lemma dest_dotdot:
  assumes "walk t [] (joinpath d (''../'' @ n)) = Inr p" and "''..'' \<notin> set d"
    and "plain_name n"
  shows "p = butlast d @ [n]"
proof -
  have nd: "n \<noteq> ''..''" using assms(3) by (simp add: plain_name_def)
  have "walk t [] (d @ [''..'', n]) = Inr p"
    using assms(1) joinpath_dotdot [OF assms(3), of d] by simp
  from walk_Inr [OF this] show ?thesis
    using foldl_nodots [OF assms(2), of "[]"] nd by simp
qed

lemma dest_slash:
  assumes "walk t [] (joinpath d (''/'' @ n)) = Inr p" and "plain_name n"
  shows "p = [n]"
proof -
  have nd: "n \<noteq> ''..''" using assms(2) by (simp add: plain_name_def)
  have "walk t [] [n] = Inr p"
    using assms(1) joinpath_slash [OF assms(2), of d] by simp
  from walk_Inr [OF this] show ?thesis
    using nd by simp
qed

lemma single_upload_stored:
  assumes run: "check_file_list lib rid w [u] = ((w', fl), Inr resp)" and wf: "wf_fs (fs w)"
    and p: "walk t1 [] (joinpath (request_dir rid) (filename u)) = Inr p"
      "butlast p \<noteq> request_dir rid"
    and t1: "t1 = fst (os_makedirs (fs w) (request_dir rid))"
  shows "lookup (fs w') p = Some (File (data (fileobj u)))"
    and "glob_star (fs w') (request_dir rid) = []"
    and "take (length (request_dir rid)) p \<noteq> request_dir rid"
proof -
  from run obtain t1' w2 where mk: "os_makedirs (fs w) (request_dir rid) = (t1', Inr ())"
    and cp: "copy_all (request_dir rid) (w\<lparr>fs := t1'\<rparr>) [u] = ((w2, fl), Inr ())"
    and w': "fs w' = fs w2"
    by (rule check_file_list_Inr) simp
  have [simp]: "t1' = t1" using mk t1 by simp
  note fresh = os_makedirs_fresh [OF mk wf request_dir_facts(1)]
  have d: "dest t1 (request_dir rid) (filename u) = p"
    using p(1) by (simp add: dest_def)
  from copy_all_Inr [OF cp] d
  have fs2: "fs w2 = AList.update p (File (data (fileobj u))) t1"
    and ne: "p \<noteq> []" and nd: "lookup t1 p \<noteq> Some Dir"
    by (simp_all add: store_def)
  show "lookup (fs w') p = Some (File (data (fileobj u)))"
    using w' fs2 ne by (simp add: lookup_update)
  show "glob_star (fs w') (request_dir rid) = []"
    using w' fs2 fresh p(2) by (simp add: glob_star_update)
  have pd: "p \<noteq> request_dir rid" using nd fresh by auto
  show "take (length (request_dir rid)) p \<noteq> request_dir rid"
  proof
    assume eq: "take (length (request_dir rid)) p = request_dir rid"
    with pd have lt: "length (request_dir rid) < length p"
      by (cases "length p \<le> length (request_dir rid)") auto
    let ?q = "take (length (request_dir rid) + 1) p"
    have q: "?q \<noteq> []" "butlast ?q = request_dir rid"
      using eq lt by (auto simp: butlast_take)
    have "length p \<noteq> length (request_dir rid) + 1"
    proof
      assume "length p = length (request_dir rid) + 1"
      then have "?q = p" by simp
      with q(2) p(2) show False by simp
    qed
    with lt have deeper: "length (request_dir rid) + 1 < length p" by simp
    have "lookup (fs w2) p \<noteq> None" using fs2 ne by (simp add: lookup_update)
    moreover have "wf_fs (fs w2)" using copy_all_inv [OF cp] fresh by simp
    ultimately have "lookup (fs w2) ?q = Some Dir"
      using deeper by (intro wf_fs_prefix)
    moreover have "same_dirs t1 (fs w2)" using copy_all_inv [OF cp] by simp
    ultimately have "lookup t1 ?q = Some Dir" by (simp add: same_dirs_def)
    then have "?q \<in> set (map fst t1)"
      using q(1) lookup_None_iff [of t1 ?q] by auto
    with q have "?q \<in> set (glob_star t1 (request_dir rid))"
      by (simp add: set_glob_star)
    with fresh show False by simp
  qed
qed

section \<open>How far the loop gets\<close>

lemma count_list_distinct: "distinct xs \<Longrightarrow> x \<in> set xs \<Longrightarrow> count_list xs x = 1"
  by (induction xs) auto

lemma copy_all_attempted:
  "copy_all d w files = ((w', files'), r) \<Longrightarrow>
     length files' = length files \<and>
     (\<forall>j < attempted d w files. closed (fileobj (files' ! j))) \<and>
     drop (attempted d w files) files' = drop (attempted d w files) files \<and>
     attempted d w files \<le> length files \<and>
     (\<forall>x. r = Inr x \<longrightarrow> attempted d w files = length files) \<and>
     (\<forall>e. r = Inl e \<longrightarrow> 0 < attempted d w files)"
proof (induction files arbitrary: w w' files' r)
  case Nil
  then show ?case by auto
next
  case (Cons u us)
  obtain w1 u1 r1 where cu: "copy_upload d w u = ((w1, u1), r1)"
    by (metis surj_pair)
  have cl: "closed (fileobj u1)" using copy_upload_closed [OF cu] by simp
  show ?case
  proof (cases r1)
    case (Inl e)
    with Cons.prems cu have "files' = u1 # us" "r = Inl e" by auto
    with cu Inl cl show ?thesis by simp
  next
    case (Inr x)
    obtain w2 us2 r2 where ca: "copy_all d w1 us = ((w2, us2), r2)"
      by (metis surj_pair)
    with Cons.prems cu Inr have eq: "files' = u1 # us2" "r = r2" by auto
    note ih = Cons.IH [OF ca]
    have at: "attempted d w (u # us) = Suc (attempted d w1 us)"
      using cu Inr by simp
    have "closed (fileobj ((u1 # us2) ! j))" if "j < Suc (attempted d w1 us)" for j
      using that ih cl by (cases j) auto
    then show ?thesis
      using ih eq at by auto
  qed
qed

text \<open>A run of the loop body over the first uploads, each from the world the one before left.\<close>

lemma copy_all_steps:
  assumes "length ws = Suc i" and "i \<le> length files"
    and "\<forall>j<i. \<exists>u'. copy_upload d (ws ! j) (files ! j) = ((ws ! Suc j, u'), Inr ())"
  shows "copy_all d (ws ! 0) files =
     (case copy_all d (ws ! i) (drop i files) of
        ((w', rest'), r) \<Rightarrow> ((w', map drained (take i files) @ rest'), r))"
  using assms
proof (induction i arbitrary: ws files)
  case 0
  then show ?case by (simp split: prod.splits)
next
  case (Suc i)
  obtain u us where files: "files = u # us" using Suc.prems(2) by (cases files) auto
  obtain w0 ws' where ws: "ws = w0 # ws'" using Suc.prems(1) by (cases ws) auto
  from Suc.prems(3) [rule_format, of 0]
  obtain u' where c0: "copy_upload d w0 u = ((ws' ! 0, u'), Inr ())"
    using files ws by auto
  have u': "u' = drained u" using copy_upload_Inr(7) [OF c0] .
  have "\<exists>u'. copy_upload d (ws' ! j) (us ! j) = ((ws' ! Suc j, u'), Inr ())" if "j < i" for j
    using Suc.prems(3) [rule_format, of "Suc j"] that files ws by simp
  then have ih: "copy_all d (ws' ! 0) us =
     (case copy_all d (ws' ! i) (drop i us) of
        ((w', rest'), r) \<Rightarrow> ((w', map drained (take i us) @ rest'), r))"
    using Suc.prems(1,2) files ws by (intro Suc.IH) simp_all
  show ?case
    using c0 u' ih files ws by (simp split: prod.splits)
qed

lemma steps_keep:
  assumes "\<forall>j<i. \<exists>u'. copy_upload d (ws ! j) (files ! j) = ((ws ! Suc j, u'), Inr ())"
    and "j \<le> i"
  shows "keeps (fs (ws ! j)) (fs (ws ! i)) \<and> calls (ws ! i) = calls (ws ! j)"
  using assms
proof (induction i)
  case 0
  then show ?case by simp
next
  case (Suc i)
  from Suc.prems(1) obtain u' where
    c: "copy_upload d (ws ! i) (files ! i) = ((ws ! Suc i, u'), Inr ())"
    by auto
  note inv = copy_upload_inv(1,4) [OF c]
  show ?case
  proof (cases "j = Suc i")
    case True
    then show ?thesis by simp
  next
    case False
    with Suc.prems(2) have "j \<le> i" by simp
    with Suc.IH Suc.prems(1) have "keeps (fs (ws ! j)) (fs (ws ! i))"
      and "calls (ws ! i) = calls (ws ! j)" by simp_all
    with inv show ?thesis using keeps_trans by auto
  qed
qed

section \<open>The steps of the handler\<close>

text \<open>The handler, step by step, whatever its outcome.\<close>

lemma check_file_list_mk_Inl:
  assumes "check_file_list lib rid w files = ((w', files'), r)"
    and "os_makedirs (fs w) (request_dir rid) = (t1, Inl e)"
  shows "w' = w\<lparr>fs := t1\<rparr>" and "files' = files" and "r = Inl e"
  using assms unfolding check_file_list_def Let_def by auto

lemma check_file_list_mk_Inr:
  assumes "check_file_list lib rid w files = ((w', files'), r)"
    and "os_makedirs (fs w) (request_dir rid) = (t1, Inr x)"
  obtains w2 r2 where "copy_all (request_dir rid) (w\<lparr>fs := t1\<rparr>) files = ((w2, files'), r2)"
    and "fs w' = fs w2" and "\<And>e. r2 = Inl e \<Longrightarrow> w' = w2 \<and> r = Inl e"
    and "\<And>resp. r = Inr resp \<Longrightarrow> r2 = Inr ()"
  using assms unfolding check_file_list_def Let_def
  by (auto split: prod.splits sum.splits)

section \<open>Nothing is removed\<close>

lemma keeps_os_mkdir: "keeps t (fst (os_mkdir t p))"
  by (auto simp: os_mkdir_def keeps_update split: option.splits node.splits)

lemma keeps_os_makedirs: "keeps t (fst (os_makedirs t name))"
proof (induction t name rule: os_makedirs.induct)
  case (1 t name)
  show ?case
  proof (cases "name \<noteq> [] \<and> lookup t (butlast name) = None")
    case True
    obtain t' r where rec: "os_makedirs t (butlast name) = (t', r)"
      by (metis surj_pair)
    with 1 True have k: "keeps t t'" by simp
    have "keeps t' (fst (os_mkdir t' name))" by (rule keeps_os_mkdir)
    with k have "keeps t (fst (os_mkdir t' name))" by (rule keeps_trans)
    with k show ?thesis
      using True rec by (subst os_makedirs.simps) (auto split: sum.splits)
  next
    case False
    then show ?thesis
      by (subst os_makedirs.simps) (auto simp: keeps_os_mkdir)
  qed
qed

lemma os_makedirs_made:
  assumes "os_makedirs t name = (t1, Inr u)" and "name \<noteq> []"
  shows "lookup t1 name = Some Dir"
proof -
  from os_makedirs_Inr [OF assms(1)] obtain t' where "os_mkdir t' name = (t1, Inr u)"
    by blast
  from os_mkdir_Inr [OF this] assms(2) show ?thesis
    by (simp add: lookup_update)
qed

section \<open>Distinct identifiers, distinct directories\<close>

lemma hexdigit_inj: "n < 16 \<Longrightarrow> m < 16 \<Longrightarrow> hexdigit n = hexdigit m \<Longrightarrow> n = m"
proof -
  assume "n < 16" "m < 16" "hexdigit n = hexdigit m"
  moreover have "distinct ''0123456789abcdef''" by simp
  moreover have "length ''0123456789abcdef'' = 16" by simp
  ultimately show "n = m"
    unfolding hexdigit_def by (metis nth_eq_iff_index_eq)
qed

lemma hex32_inj:
  assumes "hex32 u = hex32 v"
  shows "u = v"
proof (rule bit_word_eqI)
  fix n
  assume "n < LENGTH(128)"
  then have n: "n < 128" by simp
  define k where "k = n div 4"
  define j where "j = n mod 4"
  have kj: "n = 4 * k + j" "j < 4" "k < 32"
    using n by (simp_all add: k_def j_def)
  define i where "i = 31 - k"
  have i: "i < 32" "4 * (31 - i) = 4 * k"
    using kj(3) by (simp_all add: i_def)
  have "hex32 u ! i = hex32 v ! i" using assms by simp
  then have "hexdigit (unat (take_bit 4 (drop_bit (4 * k) u))) =
             hexdigit (unat (take_bit 4 (drop_bit (4 * k) v)))"
    using i by (simp add: hex32_def)
  then have "unat (take_bit 4 (drop_bit (4 * k) u)) = unat (take_bit 4 (drop_bit (4 * k) v))"
    using nibble_less by (intro hexdigit_inj)
  then have eq: "take_bit 4 (drop_bit (4 * k) u) = take_bit 4 (drop_bit (4 * k) v)"
    by (simp add: word_unat_eq_iff)
  have "bit (take_bit 4 (drop_bit (4 * k) x)) j = bit x n" for x :: uuid
    using kj by (simp add: bit_take_bit_iff bit_drop_bit_eq add.commute)
  with eq show "bit u n = bit v n" by metis
qed

lemma regroup:
  "take 8 h @ take 4 (drop 8 h) @ take 4 (drop 12 h) @ take 4 (drop 16 h) @ drop 20 h = h"
proof -
  have "take 4 (drop 16 h) @ drop 20 h = drop 16 h"
    using append_take_drop_id [of 4 "drop 16 h"] by simp
  moreover have "take 4 (drop 12 h) @ drop 16 h = drop 12 h"
    using append_take_drop_id [of 4 "drop 12 h"] by simp
  moreover have "take 4 (drop 8 h) @ drop 12 h = drop 8 h"
    using append_take_drop_id [of 4 "drop 8 h"] by simp
  moreover have "take 8 h @ drop 8 h = h"
    by (rule append_take_drop_id)
  ultimately show ?thesis by (simp only:)
qed

lemma hex32_no_dash: "c \<in> set (hex32 u) \<Longrightarrow> c \<noteq> CHR ''-''"
proof -
  assume "c \<in> set (hex32 u)"
  then obtain i where "c = hexdigit (unat (take_bit 4 (drop_bit (4 * (31 - i)) u)))"
    by (auto simp: hex32_def)
  moreover have "''0123456789abcdef'' ! m \<in> set ''0123456789abcdef''" if "m < 16" for m
    using that by (intro nth_mem) simp
  ultimately have "c \<in> set ''0123456789abcdef''"
    unfolding hexdigit_def using nibble_less by blast
  then show ?thesis by auto
qed

lemma undash_part: "set xs \<subseteq> set (hex32 u) \<Longrightarrow> filter (\<lambda>c. c \<noteq> CHR ''-'') xs = xs"
  using hex32_no_dash by (intro filter_True) auto

lemma undash_hex32: "filter (\<lambda>c. c \<noteq> CHR ''-'') (uuid_str u) = hex32 u"
proof -
  have p: "set (take n (hex32 u)) \<subseteq> set (hex32 u)" "set (drop m (hex32 u)) \<subseteq> set (hex32 u)"
    "set (take n (drop m (hex32 u))) \<subseteq> set (hex32 u)" for n m
    using set_take_subset set_drop_subset by (fast+)
  have "filter (\<lambda>c. c \<noteq> CHR ''-'') (uuid_str u) =
      take 8 (hex32 u) @ take 4 (drop 8 (hex32 u)) @ take 4 (drop 12 (hex32 u)) @
      take 4 (drop 16 (hex32 u)) @ drop 20 (hex32 u)"
    unfolding uuid_str_def Let_def filter_append
    by (simp add: undash_part [OF p(1)] undash_part [OF p(2)] undash_part [OF p(3)])
  then show ?thesis by (simp only: regroup)
qed

lemma uuid_str_inj: "uuid_str u = uuid_str v \<Longrightarrow> u = v"
  using undash_hex32 [of u] undash_hex32 [of v] hex32_inj by metis

lemma request_dir_inj: "request_dir a = request_dir b \<longleftrightarrow> a = b"
  using uuid_str_inj by (auto simp: request_dir_eq)

lemma request_dirs_disjoint: "a \<noteq> b \<Longrightarrow> request_dir a @ x \<noteq> request_dir b @ y"
  using uuid_str_inj by (auto simp: request_dir_eq)

subsection \<open>One request alone\<close>

lemma funpow_Finished:
  "(handler_step lib rid ^^ n) (w, Finished fl r) = (w, Finished fl r)"
  by (induction n) simp_all

lemma steps_loop:
  "(handler_step lib rid ^^ length rest) (w, Copying copied rest) =
     (case copy_all (request_dir rid) w rest of
        ((w', rest'), Inl e) \<Rightarrow> (w', Finished (copied @ rest') (Inl e))
      | ((w', rest'), Inr x) \<Rightarrow> (w', Copying (copied @ rest') []))"
proof (induction rest arbitrary: w copied)
  case Nil
  show ?case by simp
next
  case (Cons u us)
  obtain w1 u1 r1 where cu: "copy_upload (request_dir rid) w u = ((w1, u1), r1)"
    by (metis surj_pair)
  show ?case
  proof (cases r1)
    case (Inl e)
    then show ?thesis
      using cu by (simp add: funpow_swap1 funpow_Finished)
  next
    case (Inr x)
    obtain w2 us2 r2 where ca: "copy_all (request_dir rid) w1 us = ((w2, us2), r2)"
      by (metis surj_pair)
    have "(handler_step lib rid ^^ length (u # us)) (w, Copying copied (u # us)) =
        (handler_step lib rid ^^ length us) (w1, Copying (copied @ [u1]) us)"
      using cu Inr by (simp add: funpow_swap1)
    also have "\<dots> = (case copy_all (request_dir rid) w1 us of
        ((w', rest'), Inl e) \<Rightarrow> (w', Finished ((copied @ [u1]) @ rest') (Inl e))
      | ((w', rest'), Inr x) \<Rightarrow> (w', Copying ((copied @ [u1]) @ rest') []))"
      by (rule Cons.IH)
    finally show ?thesis
      using cu Inr ca by (simp split: sum.splits)
  qed
qed

text \<open>
  Run alone, the steps of a request are the handler: after as many steps as there are
  uploads, and two more, the request is finished with the world, the uploads and the
  result of \<open>check_file_list\<close>.
\<close>

lemma steps_alone:
  "(handler_step lib rid ^^ (length files + 2)) (w, Start files) =
     (case check_file_list lib rid w files of ((w', files'), r) \<Rightarrow> (w', Finished files' r))"
proof -
  obtain t1 r1 where mk: "os_makedirs (fs w) (request_dir rid) = (t1, r1)"
    by (metis surj_pair)
  show ?thesis
  proof (cases r1)
    case (Inl e)
    then show ?thesis
      using mk by (simp add: funpow_swap1 funpow_Finished check_file_list_def)
  next
    case (Inr x)
    obtain w2 fl r2 where ca: "copy_all (request_dir rid) (w\<lparr>fs := t1\<rparr>) files = ((w2, fl), r2)"
      by (metis surj_pair)
    have "(handler_step lib rid ^^ (length files + 2)) (w, Start files) =
        handler_step lib rid ((handler_step lib rid ^^ length files) (w\<lparr>fs := t1\<rparr>, Copying [] files))"
      using mk Inr by (simp add: funpow_swap1)
    also have "(handler_step lib rid ^^ length files) (w\<lparr>fs := t1\<rparr>, Copying [] files) =
        (case r2 of Inl e \<Rightarrow> (w2, Finished fl (Inl e)) | Inr x \<Rightarrow> (w2, Copying fl []))"
      using steps_loop [where lib = lib and rid = rid and rest = files and w = "w\<lparr>fs := t1\<rparr>"
          and copied = "[]"] ca
      by (simp split: sum.splits)
    finally show ?thesis
      using mk Inr ca
      by (cases r2) (auto simp: check_file_list_def Let_def split: sum.splits)
  qed
qed

subsection \<open>Two requests at the same time\<close>

lemma own_names: "map filename xs = map filename ys \<Longrightarrow> own rid xs = own rid ys"
proof -
  assume "map filename xs = map filename ys"
  then have "filename ` set xs = filename ` set ys"
    by (metis set_map)
  moreover have "own rid zs = (\<lambda>n. request_dir rid @ [n]) ` filename ` set zs" for zs
    by (simp add: own_def image_image)
  ultimately show ?thesis by simp
qed

lemma own_disjoint: "a \<noteq> b \<Longrightarrow> own a fa \<inter> own b fb = {}"
  using request_dirs_disjoint [of a b] by (auto simp: own_def)

lemma glob_star_frame:
  assumes "\<And>p. p \<noteq> [] \<Longrightarrow> butlast p = d \<Longrightarrow> lookup t' p = None \<longleftrightarrow> lookup t p = None"
  shows "set (glob_star t' d) = set (glob_star t d)"
  using assms by (auto simp: set_glob_star lookup_None_iff simp del: set_map)

lemma update_key_set:
  "set (map fst (AList.update k v t)) = insert k (set (map fst t))"
  using dom_update [of k v t] by simp

lemma os_mkdir_keys:
  assumes "os_mkdir t p = (t', r)" and "q \<in> set (map fst t')"
  shows "q \<in> set (map fst t) \<or> q = p"
proof -
  have "t' = t \<or> t' = AList.update p Dir t"
    using assms(1) by (auto simp: os_mkdir_def split: option.splits node.splits if_splits)
  then show ?thesis
    using assms(2) by (auto simp only: update_key_set insert_iff)
qed

lemma os_makedirs_keys:
  "os_makedirs t name = (t', r) \<Longrightarrow> q \<in> set (map fst t')
     \<Longrightarrow> q \<in> set (map fst t) \<or> length q \<le> length name"
proof (induction t name arbitrary: t' r q rule: os_makedirs.induct)
  case (1 t name)
  show ?case
  proof (cases "name \<noteq> [] \<and> lookup t (butlast name) = None")
    case True
    obtain t0 r0 where rec: "os_makedirs t (butlast name) = (t0, r0)"
      by (metis surj_pair)
    have ih: "q' \<in> set (map fst t0) \<Longrightarrow> q' \<in> set (map fst t) \<or> length q' \<le> length (butlast name)"
      for q'
      using "1.IH" [OF True rec] by blast
    have unf: "os_makedirs t name =
        (case r0 of Inl e \<Rightarrow> if e = FileExistsError then os_mkdir t0 name else (t0, Inl e)
         | Inr x \<Rightarrow> os_mkdir t0 name)"
      using True rec by (subst os_makedirs.simps) simp
    have "os_mkdir t0 name = (t', r) \<or> t' = t0"
    proof (cases r0)
      case (Inl e)
      then show ?thesis using unf "1.prems"(1) by (cases "e = FileExistsError") simp_all
    next
      case (Inr x)
      then show ?thesis using unf "1.prems"(1) by simp
    qed
    then have "q \<in> set (map fst t0) \<or> q = name"
      using "1.prems"(2) os_mkdir_keys [of t0 name t' r q] by blast
    then show ?thesis
    proof
      assume "q \<in> set (map fst t0)"
      from ih [OF this] show ?thesis by auto
    next
      assume "q = name"
      then show ?thesis by simp
    qed
  next
    case False
    then have "os_makedirs t name = os_mkdir t name"
      by (subst os_makedirs.simps) auto
    then have "os_mkdir t name = (t', r)"
      using "1.prems"(1) by simp
    from os_mkdir_keys [OF this "1.prems"(2)] show ?thesis by auto
  qed
qed

text \<open>Making the directory of one request leaves what lies in another's as it was.\<close>

lemma makedirs_frame:
  assumes "os_makedirs t (request_dir x) = (t', r)"
  shows "set (glob_star t' (request_dir y)) = set (glob_star t (request_dir y))"
    and "lookup t (request_dir y) = Some Dir \<Longrightarrow> lookup t' (request_dir y) = Some Dir"
proof -
  have k: "keeps t t'" using keeps_os_makedirs [of t "request_dir x"] assms by simp
  show "lookup t (request_dir y) = Some Dir \<Longrightarrow> lookup t' (request_dir y) = Some Dir"
    using k by (simp add: keeps_def)
  show "set (glob_star t' (request_dir y)) = set (glob_star t (request_dir y))"
  proof (rule glob_star_frame)
    fix p :: path
    assume p: "p \<noteq> []" "butlast p = request_dir y"
    then have "length p - 1 = 4"
      using request_dir_facts(4) [of y] length_butlast [of p] by simp
    then have "length p = 5" by arith
    then have "\<not> length p \<le> length (request_dir x)"
      using request_dir_facts(4) [of x] by simp
    then have "p \<in> set (map fst t') \<Longrightarrow> p \<in> set (map fst t)"
      using os_makedirs_keys [OF assms] by blast
    moreover have "lookup t p \<noteq> None \<Longrightarrow> lookup t' p \<noteq> None"
      using k by (simp add: keeps_def)
    ultimately show "lookup t' p = None \<longleftrightarrow> lookup t p = None"
      using p(1) by (auto simp: lookup_None_iff simp del: set_map)
  qed
qed

text \<open>The body of the loop, with a plain name, changes its own directory only.\<close>

lemma copy_upload_plain:
  assumes cu: "copy_upload (request_dir x) w u = ((w', u'), r)"
    and wf: "wf_fs (fs w)" and dir: "lookup (fs w) (request_dir x) = Some Dir"
    and plain: "plain_name (filename u)"
  shows "fs w' = fs w \<or> (\<exists>pre. fs w' = AList.update (request_dir x @ [filename u]) (File pre) (fs w))"
    and "y \<noteq> x \<Longrightarrow> set (glob_star (fs w') (request_dir y)) = set (glob_star (fs w) (request_dir y))"
    and "lookup (fs w) (request_dir y) = Some Dir \<Longrightarrow> lookup (fs w') (request_dir y) = Some Dir"
    and "r = Inr () \<Longrightarrow> set (glob_star (fs w') (request_dir x)) =
           insert (request_dir x @ [filename u]) (set (glob_star (fs w) (request_dir x)))"
proof -
  have nd: "filename u \<noteq> ''..''" using plain by (simp add: plain_name_def)
  have wk: "p = request_dir x @ [filename u]"
    if "walk (fs w) [] (joinpath (request_dir x) (filename u)) = Inr p" for p
    using walk_nodots [OF that [unfolded joinpath_plain [OF plain]]] request_dir_facts(2) [of x] nd
    by simp
  from copy_upload_fs [OF cu] wk
  show alt: "fs w' = fs w \<or>
      (\<exists>pre. fs w' = AList.update (request_dir x @ [filename u]) (File pre) (fs w))"
    by blast
  note keys = update_key_set
  show "set (glob_star (fs w') (request_dir y)) = set (glob_star (fs w) (request_dir y))"
    if "y \<noteq> x"
  proof -
    have ne: "request_dir y \<noteq> request_dir x" using that by (simp add: request_dir_inj)
    have "set (glob_star (AList.update (request_dir x @ [filename u]) v t) (request_dir y)) =
        set (glob_star t (request_dir y))" for v and t :: filesystem
      using ne by (auto simp: set_glob_star keys simp del: set_map)
    with alt show ?thesis by (elim disjE exE) simp_all
  qed
  show "lookup (fs w) (request_dir y) = Some Dir \<Longrightarrow> lookup (fs w') (request_dir y) = Some Dir"
    using copy_upload_inv(1) [OF cu] by (simp add: keeps_def)
  show "set (glob_star (fs w') (request_dir x)) =
           insert (request_dir x @ [filename u]) (set (glob_star (fs w) (request_dir x)))"
    if "r = Inr ()"
  proof -
    have "dest (fs w) (request_dir x) (filename u) = request_dir x @ [filename u]"
      using wk [OF copy_upload_Inr(1) [OF cu [unfolded that]]] .
    with copy_upload_Inr(5) [OF cu [unfolded that]]
    have "fs w' = AList.update (request_dir x @ [filename u]) (File (data (fileobj u))) (fs w)"
      by simp
    then show ?thesis
      by (auto simp: set_glob_star keys simp del: set_map)
  qed
qed

lemma step_self:
  assumes wf: "wf_fs (fs w)" and ok: "phase_ok x fx w p"
    and plain: "\<forall>u \<in> set fx. plain_name (filename u)"
    and st: "handler_step lib x (w, p) = (w', p')"
  shows "wf_fs (fs w') \<and> phase_ok x fx w' p'"
proof (cases p)
  case (Start fl)
  obtain t r where mk: "os_makedirs (fs w) (request_dir x) = (t, r)"
    by (metis surj_pair)
  have wf': "wf_fs t" using wf_fs_os_makedirs [OF wf, of "request_dir x"] mk by simp
  show ?thesis
  proof (cases r)
    case (Inl e)
    with st Start mk wf' show ?thesis by auto
  next
    case (Inr u)
    from os_makedirs_fresh [OF mk [unfolded Inr] wf request_dir_facts(1)]
    have "lookup t (request_dir x) = Some Dir" "glob_star t (request_dir x) = []" by simp_all
    with st Start mk Inr wf' ok show ?thesis by (auto simp: own_def)
  qed
next
  case (Copying copied rest)
  from ok Copying have names: "map filename (copied @ rest) = map filename fx"
    and dir: "lookup (fs w) (request_dir x) = Some Dir"
    and gl: "set (glob_star (fs w) (request_dir x)) = own x copied"
    by simp_all
  show ?thesis
  proof (cases rest)
    case Nil
    with st Copying wf ok show ?thesis
      by (auto simp: Let_def split: sum.splits)
  next
    case (Cons u us)
    obtain w1 u1 r where cu: "copy_upload (request_dir x) w u = ((w1, u1), r)"
      by (metis surj_pair)
    have "filename u \<in> set (map filename fx)"
      using names Cons by (metis in_set_conv_decomp list.simps(9) map_append)
    then have pl: "plain_name (filename u)" using plain by auto
    have wf1: "wf_fs (fs w1)" using copy_upload_inv(3) [OF cu wf] .
    note c = copy_upload_plain [OF cu wf dir pl]
    show ?thesis
    proof (cases r)
      case (Inl e)
      with st Copying Cons cu wf1 show ?thesis by auto
    next
      case (Inr v)
      then have r: "r = Inr ()" by simp
      have n1: "filename u1 = filename u" using copy_upload_closed [OF cu] by simp
      have "set (glob_star (fs w1) (request_dir x)) = own x (copied @ [u1])"
        using c(4) [OF r] gl n1 by (simp add: own_def)
      moreover have "lookup (fs w1) (request_dir x) = Some Dir"
        using c(3) [of x] dir by simp
      moreover have "map filename ((copied @ [u1]) @ us) = map filename fx"
        using names Cons n1 by simp
      ultimately show ?thesis
        using st Copying Cons cu r wf1 by auto
    qed
  qed
next
  case (Finished fl r)
  with st wf show ?thesis by auto
qed

lemma step_other:
  assumes wf: "wf_fs (fs w)" and ok: "phase_ok x fx w p"
    and plain: "\<forall>u \<in> set fx. plain_name (filename u)"
    and st: "handler_step lib x (w, p) = (w', p')"
    and other: "y \<noteq> x" "phase_ok y fy w q"
  shows "phase_ok y fy w' q"
proof (cases q)
  case (Start fl)
  with other show ?thesis by simp
next
  case (Finished fl r)
  then show ?thesis by simp
next
  case q: (Copying copied' rest')
  from other q have ydir: "lookup (fs w) (request_dir y) = Some Dir"
    and rest: "map filename (copied' @ rest') = map filename fy"
      "set (glob_star (fs w) (request_dir y)) = own y copied'"
    by simp_all
  have "lookup (fs w') (request_dir y) = Some Dir \<and>
        set (glob_star (fs w') (request_dir y)) = set (glob_star (fs w) (request_dir y))"
  proof (cases p)
    case (Start fl)
    obtain t r where mk: "os_makedirs (fs w) (request_dir x) = (t, r)"
      by (metis surj_pair)
    have "fs w' = t" using st Start mk by (cases r) auto
    with makedirs_frame [OF mk, of y] ydir show ?thesis by simp
  next
    case (Copying copied rs)
    show ?thesis
    proof (cases rs)
      case Nil
      with st Copying have "fs w' = fs w" by (auto simp: Let_def split: sum.splits)
      with ydir show ?thesis by simp
    next
      case (Cons u us)
      obtain w1 u1 r where cu: "copy_upload (request_dir x) w u = ((w1, u1), r)"
        by (metis surj_pair)
      from ok Copying Cons have names: "map filename (copied @ u # us) = map filename fx"
        and dir: "lookup (fs w) (request_dir x) = Some Dir"
        by simp_all
      have "filename u \<in> set (map filename fx)"
        using names by (metis in_set_conv_decomp list.simps(9) map_append)
      then have pl: "plain_name (filename u)" using plain by auto
      note c = copy_upload_plain [OF cu wf dir pl]
      have "w' = w1" using st Copying Cons cu by (cases r) auto
      with c(2) [OF other(1)] c(3) [of y] ydir show ?thesis by simp
    qed
  next
    case (Finished fl r)
    with st ydir show ?thesis by auto
  qed
  with q rest show ?thesis by simp
qed

lemma inv_interleave:
  assumes "a \<noteq> b" and "\<forall>u \<in> set fa \<union> set fb. plain_name (filename u)"
    and "interleave lib a b s s'" and "isolated a b fa fb s"
  shows "isolated a b fa fb s'"
  using assms(3)
proof cases
  case (first w p w' p' q)
  with assms(4) have i: "wf_fs (fs w)" "phase_ok a fa w p" "phase_ok b fb w q"
    by (simp_all add: isolated_def)
  have pl: "\<forall>u \<in> set fa. plain_name (filename u)" using assms(2) by blast
  from step_self [OF i(1,2) pl first(3)] step_other [OF i(1,2) pl first(3) _ i(3)] assms(1)
  show ?thesis using first by (auto simp: isolated_def)
next
  case (second w q w' q' p)
  with assms(4) have i: "wf_fs (fs w)" "phase_ok a fa w p" "phase_ok b fb w q"
    by (simp_all add: isolated_def)
  have pl: "\<forall>u \<in> set fb. plain_name (filename u)" using assms(2) by blast
  from step_self [OF i(1,3) pl second(3)] step_other [OF i(1,3) pl second(3) _ i(2)] assms(1)
  show ?thesis using second by (auto simp: isolated_def)
qed

lemma inv_reachable:
  assumes "a \<noteq> b" and "\<forall>u \<in> set fa \<union> set fb. plain_name (filename u)"
    and "rtranclp (interleave lib a b) s s'" and "isolated a b fa fb s"
  shows "isolated a b fa fb s'"
  using assms(3,4)
proof (induction rule: rtranclp_induct)
  case base
  then show ?case .
next
  case (step y z)
  then show ?case using inv_interleave [OF assms(1,2)] by blast
qed

lemma uuid_str_eq_iff: "uuid_str u = uuid_str v \<longleftrightarrow> u = v"
  using uuid_str_inj by blast

lemma uuid_str_no_slash: "CHR ''/'' \<notin> set (uuid_str u)"
  using uuid_str_plain [of u] by (simp add: plain_name_def)

lemma split_sep_uuid:
  "split_sep (CHR ''/'') (uuid_str u @ CHR ''/'' # b) = uuid_str u # split_sep (CHR ''/'') b"
  using uuid_str_no_slash by (rule split_sep_prefix)

lemma checker_step_calls:
  "calls (fst (handler_step lib x (w, Copying copied []))) = calls w \<or>
   calls (fst (handler_step lib x (w, Copying copied []))) =
     calls w @ [(glob_star (fs w) (request_dir x), ''bodc'')]"
  by (auto simp: Let_def split: sum.splits)

section \<open>Concrete runs\<close>

lemmas step_simps = run_simps uuid_str_eq_iff split_sep_uuid intruder_def victim_def
  shared_fs_def drained_def

lemma scenario_run:
  "check_file_list lib_ok 5 w0 scenario =
     ((\<lparr>fs = scenario_fs, free = 88,
        calls = [([request_dir 5 @ [''a.txt''], request_dir 5 @ [''b.csv'']], ''bodc'')]\<rparr>,
       map drained scenario),
      Inr [''results'' \<mapsto> [request_dir 5 @ [''a.txt''], request_dir 5 @ [''b.csv'']]])"
  by (simp add: run_simps scenario_def scenario_fs_def drained_def)

lemma wf_fs_w0: "wf_fs (fs w0)"
  by (simp add: w0_def wf_fs_def)

lemma escaped_run:
  "check_file_list lib_ok 5 w0 [up ''../b'' [4]] =
     ((\<lparr>fs = escaped_fs, free = 99, calls = [([], ''bodc'')]\<rparr>, [drained (up ''../b'' [4])]),
      Inr [''results'' \<mapsto> []])"
  by (simp add: run_simps escaped_fs_def drained_def)

lemma absolute_run:
  "check_file_list lib_ok 5 w0 [up ''/b'' [4]] =
     ((\<lparr>fs = absolute_fs, free = 99, calls = [([], ''bodc'')]\<rparr>, [drained (up ''/b'' [4])]),
      Inr [''results'' \<mapsto> []])"
  by (simp add: run_simps absolute_fs_def drained_def)

lemma collided_run:
  "check_file_list lib_ok 5 w0 [up ''a.txt'' [1, 2, 3], up ''a.txt'' [4]] =
     ((\<lparr>fs = collided_fs, free = 99, calls = [([request_dir 5 @ [''a.txt'']], ''bodc'')]\<rparr>,
       [drained (up ''a.txt'' [1, 2, 3]), drained (up ''a.txt'' [4])]),
      Inr [''results'' \<mapsto> [request_dir 5 @ [''a.txt'']]])"
  by (simp add: run_simps collided_fs_def drained_def)

lemma escaped_twice_run:
  "check_file_list lib_ok 5 w0 [up ''../b'' [1], up ''../b'' [4]] =
     ((\<lparr>fs = escaped_fs, free = 99, calls = [([], ''bodc'')]\<rparr>,
       [drained (up ''../b'' [1]), drained (up ''../b'' [4])]),
      Inr [''results'' \<mapsto> []])"
  by (simp add: run_simps escaped_fs_def drained_def)

lemma makedirs_w0: "os_makedirs (fs w0) (request_dir 5) = (made_fs, Inr ())"
  by (simp add: run_simps made_fs_def)

lemma makedirs_w_tight: "os_makedirs (fs w_tight) (request_dir 5) = (made_fs, Inr ())"
  by (simp add: run_simps made_fs_def w_tight_def)

lemma makedirs_w_taken: "os_makedirs (fs w_taken) (request_dir 5) = (made_fs, Inl FileExistsError)"
  by (simp add: run_simps made_fs_def w_taken_def)

lemma broken_run:
  "check_file_list lib_ok 5 w0 broken_files =
     ((\<lparr>fs = made_fs @ [(request_dir 5 @ [''a.txt''], File [1])], free = 99, calls = []\<rparr>,
       [drained (up ''a.txt'' [1]), \<lparr>filename = ''sub/x'', fileobj = \<lparr>data = [2], closed = True\<rparr>\<rparr>,
        up ''c'' [3]]),
      Inl FileNotFoundError)"
  by (simp add: run_simps made_fs_def broken_files_def drained_def)

lemma attempted_broken:
  "attempted (request_dir 5) (w0\<lparr>fs := made_fs\<rparr>) broken_files = 2"
  by (simp add: run_simps made_fs_def broken_files_def)

lemma reversed_run:
  "check_file_list lib_ok 5 w0 (rev scenario) =
     ((\<lparr>fs = made_fs @ [(request_dir 5 @ [''b.csv''], File [120, 44, 121, 10, 49, 44, 50]),
                       (request_dir 5 @ [''a.txt''], File [104, 101, 108, 108, 111])],
        free = 88,
        calls = [([request_dir 5 @ [''b.csv''], request_dir 5 @ [''a.txt'']], ''bodc'')]\<rparr>,
       map drained (rev scenario)),
      Inr [''results'' \<mapsto> [request_dir 5 @ [''b.csv''], request_dir 5 @ [''a.txt'']]])"
  by (simp add: run_simps scenario_def made_fs_def drained_def)

lemma schedule_trans:
  "rtranclp r a b \<Longrightarrow> r b c \<Longrightarrow> rtranclp r a c"
  by (rule rtranclp.rtrancl_into_rtrancl)

lemma made_fs_w0: "w0\<lparr>fs := made_fs\<rparr> = \<lparr>fs = made_fs, free = 100, calls = []\<rparr>"
  by (simp add: w0_def)

lemma broken_first:
  "copy_upload (request_dir 5) \<lparr>fs = made_fs, free = 100, calls = []\<rparr> (up ''a.txt'' [1]) =
     ((\<lparr>fs = made_fs @ [(request_dir 5 @ [''a.txt''], File [1])], free = 99, calls = []\<rparr>,
       drained (up ''a.txt'' [1])), Inr ())"
  by (simp add: run_simps made_fs_def drained_def)

lemma broken_second_open:
  "open_wb \<lparr>fs = made_fs @ [(request_dir 5 @ [''a.txt''], File [1])], free = 99, calls = []\<rparr>
      (joinpath (request_dir 5) ''sub/x'') =
     (\<lparr>fs = made_fs @ [(request_dir 5 @ [''a.txt''], File [1])], free = 99, calls = []\<rparr>,
      Inl FileNotFoundError)"
  by (simp add: run_simps made_fs_def)

lemma scenario_first:
  "copy_upload (request_dir 5) \<lparr>fs = made_fs, free = 100, calls = []\<rparr>
       (up ''a.txt'' [104, 101, 108, 108, 111]) =
     ((\<lparr>fs = made_fs @ [(request_dir 5 @ [''a.txt''], File [104, 101, 108, 108, 111])],
        free = 95, calls = []\<rparr>,
       drained (up ''a.txt'' [104, 101, 108, 108, 111])), Inr ())"
  by (simp add: run_simps made_fs_def drained_def)

lemma scenario_second:
  "copy_upload (request_dir 5)
       \<lparr>fs = made_fs @ [(request_dir 5 @ [''a.txt''], File [104, 101, 108, 108, 111])],
        free = 95, calls = []\<rparr>
       (up ''b.csv'' [120, 44, 121, 10, 49, 44, 50]) =
     ((\<lparr>fs = scenario_fs, free = 88, calls = []\<rparr>,
       drained (up ''b.csv'' [120, 44, 121, 10, 49, 44, 50])), Inr ())"
  by (simp add: run_simps made_fs_def scenario_fs_def drained_def)

lemma big_open:
  "open_wb \<lparr>fs = made_fs, free = 65536, calls = []\<rparr> (joinpath (request_dir 5) ''big.bin'') =
     (\<lparr>fs = made_fs @ [(request_dir 5 @ [''big.bin''], File [])], free = 65536, calls = []\<rparr>,
      Inr (request_dir 5 @ [''big.bin'']))"
  by (simp add: run_simps made_fs_def)

lemma big_copy:
  "copyfileobj 0 (request_dir 5 @ [''big.bin''])
       \<lparr>fs = made_fs @ [(request_dir 5 @ [''big.bin''], File [])], free = 65536, calls = []\<rparr>
       \<lparr>data = replicate 65537 0, closed = False\<rparr> =
     ((\<lparr>fs = made_fs @ [(request_dir 5 @ [''big.bin''], File (replicate 65536 0))],
        free = 0, calls = []\<rparr>,
       \<lparr>data = [], closed = False\<rparr>), Inl OSError)"
  by (simp add: run_simps made_fs_def)

lemma wf_fs_scenario: "wf_fs scenario_fs"
  by (simp add: wf_fs_def scenario_fs_def lookup_def request_dir_eq uuid_str_neq)

lemma plain_name_replicate: "c \<noteq> CHR ''/'' \<Longrightarrow> 2 < n \<Longrightarrow> plain_name (replicate n c)"
proof -
  assume c: "c \<noteq> CHR ''/''" and n: "2 < n"
  have "length (replicate n c) \<noteq> length ''.''" "length (replicate n c) \<noteq> length ''..''"
    "length (replicate n c) \<noteq> length ''''"
    using n by simp_all
  then have "replicate n c \<noteq> ''.''" "replicate n c \<noteq> ''..''" "replicate n c \<noteq> []"
    by fastforce+
  then show ?thesis using c by (simp add: plain_name_def)
qed

lemma makedirs_w_small: "os_makedirs (fs w_small) (request_dir 5) = (made_fs, Inr ())"
  by (simp add: run_simps made_fs_def w_small_def)

lemma wf_fs_w_small: "wf_fs (fs w_small)"
  by (simp add: w_small_def wf_fs_def)

lemma small_first:
  "copy_all (request_dir 5) (w_small\<lparr>fs := made_fs\<rparr>) [up ''a.txt'' [1, 2, 3]] =
     ((\<lparr>fs = made_fs @ [(request_dir 5 @ [''a.txt''], File [1, 2, 3])], free = 0, calls = []\<rparr>,
       [drained (up ''a.txt'' [1, 2, 3])]), Inr ())"
  by (simp add: run_simps made_fs_def w_small_def drained_def)

lemma small_both:
  "copy_all (request_dir 5) (w_small\<lparr>fs := made_fs\<rparr>)
       ([up ''a.txt'' [1, 2, 3]] @ up ''a.txt'' [4, 5, 6] # []) =
     ((\<lparr>fs = made_fs @ [(request_dir 5 @ [''a.txt''], File [4, 5, 6])], free = 0, calls = []\<rparr>,
       [drained (up ''a.txt'' [1, 2, 3]), drained (up ''a.txt'' [4, 5, 6])]), Inr ())"
  by (simp add: run_simps made_fs_def w_small_def drained_def)

section \<open>Completeness\<close>

text \<open>
  C1, as stated, fails: an upload named \<^verbatim>\<open>../b\<close> is one upload with a name distinct
  from all others, the call returns, and the request directory holds no file.
\<close>

theorem completeness_counterexample:
  "distinct (map filename [up ''../b'' [4]]) \<and>
   check_file_list lib_ok 5 w0 [up ''../b'' [4]] =
     ((\<lparr>fs = escaped_fs, free = 99, calls = [([], ''bodc'')]\<rparr>, [drained (up ''../b'' [4])]),
      Inr [''results'' \<mapsto> []]) \<and>
   glob_star escaped_fs (request_dir 5) = [] \<and>
   length (glob_star escaped_fs (request_dir 5)) \<noteq> length [up ''../b'' [4]]"
  using escaped_run by (simp add: glob_star_def escaped_fs_def request_dir_eq uuid_str_neq)

text \<open>
  C1, amended. When the names are pairwise distinct and plain (one path component),
  a call that returns, on a well-formed filesystem, leaves as many entries in the
  request directory as there were uploads: one file for each upload, at the upload's
  name, holding the bytes the upload's stream had to yield.
\<close>

theorem check_file_list_complete:
  assumes run: "check_file_list lib rid w files = ((w', files'), Inr resp)"
    and wf: "wf_fs (fs w)"
    and plain: "\<forall>u \<in> set files. plain_name (filename u)"
    and dist: "distinct (map filename files)"
  shows "length (glob_star (fs w') (request_dir rid)) = length files \<and>
     set (glob_star (fs w') (request_dir rid)) =
       (\<lambda>u. request_dir rid @ [filename u]) ` set files \<and>
     (\<forall>u \<in> set files.
        lookup (fs w') (request_dir rid @ [filename u]) = Some (File (data (fileobj u))))"
proof -
  from run obtain t1 w2 where mk: "os_makedirs (fs w) (request_dir rid) = (t1, Inr ())"
    and cp: "copy_all (request_dir rid) (w\<lparr>fs := t1\<rparr>) files = ((w2, files'), Inr ())"
    and w': "fs w' = fs w2"
    by (rule check_file_list_Inr) simp
  note sp = stored_plain [OF mk wf request_dir_facts(1,2) cp plain]
  have "card (filename ` set files) = length files"
    using dist distinct_card [of "map filename files"] by simp
  then have "length (glob_star (fs w2) (request_dir rid)) = length files"
    using length_glob_star_plain [OF sp(1,2)] by simp
  moreover have "lookup (fs w2) (request_dir rid @ [filename u]) = Some (File (data (fileobj u)))"
    if "u \<in> set files" for u
    using sp(3) [of "filename u"] filter_distinct_key [OF dist that] by simp
  ultimately show ?thesis
    using sp(1) w' by simp
qed

theorem check_file_list_complete_witness:
  "check_file_list lib_ok 5 w0 scenario =
     ((\<lparr>fs = scenario_fs, free = 88,
        calls = [([request_dir 5 @ [''a.txt''], request_dir 5 @ [''b.csv'']], ''bodc'')]\<rparr>,
       map drained scenario),
      Inr [''results'' \<mapsto> [request_dir 5 @ [''a.txt''], request_dir 5 @ [''b.csv'']]]) \<and>
   wf_fs (fs w0) \<and> plain_name ''a.txt'' \<and> plain_name ''b.csv'' \<and>
   distinct (map filename scenario) \<and>
   length (glob_star scenario_fs (request_dir 5)) = 2 \<and>
   lookup scenario_fs (request_dir 5 @ [''a.txt'']) = Some (File [104, 101, 108, 108, 111]) \<and>
   lookup scenario_fs (request_dir 5 @ [''b.csv'']) = Some (File [120, 44, 121, 10, 49, 44, 50])"
proof -
  have plain: "\<forall>u \<in> set scenario. plain_name (filename u)"
    by (simp add: scenario_def up_def plain_name_def)
  have dist: "distinct (map filename scenario)"
    by (simp add: scenario_def up_def)
  from check_file_list_complete [OF scenario_run wf_fs_w0 plain dist]
  have "length (glob_star scenario_fs (request_dir 5)) = length scenario"
    and "\<forall>u \<in> set scenario.
        lookup scenario_fs (request_dir 5 @ [filename u]) = Some (File (data (fileobj u)))"
    by simp_all
  then show ?thesis
    using scenario_run wf_fs_w0 plain dist by (simp add: scenario_def up_def)
qed

section \<open>The hand-off to the checker\<close>

text \<open>
  C2. A call that returns has called \<^verbatim>\<open>check_files\<close> once, after the loop over the
  uploads has come to its end (every upload is read to the end and closed), with the
  entries directly under the request directory, all of them, and the name
  \<^verbatim>\<open>"bodc"\<close>; the response is the mapping with the one key \<^verbatim>\<open>"results"\<close> and the
  value the checker returned.
\<close>

theorem check_file_list_calls_checker_once:
  assumes "check_file_list lib rid w files = ((w', files'), Inr resp)"
  shows "\<exists>t1 w2 fc v.
      os_makedirs (fs w) (request_dir rid) = (t1, Inr ()) \<and>
      copy_all (request_dir rid) (w\<lparr>fs := t1\<rparr>) files = ((w2, files'), Inr ()) \<and>
      files' = map drained files \<and>
      FileChecker lib (fs w2) ''/home/app/file_checker_spec'' = Inr fc \<and>
      check_files lib fc (fs w2) (glob_star (fs w2) (request_dir rid)) ''bodc'' = Inr v \<and>
      calls w' = calls w @ [(glob_star (fs w2) (request_dir rid), ''bodc'')] \<and>
      fs w' = fs w2 \<and>
      set (glob_star (fs w2) (request_dir rid)) =
        {p. lookup (fs w2) p \<noteq> None \<and> p \<noteq> [] \<and> butlast p = request_dir rid} \<and>
      resp = [''results'' \<mapsto> v] \<and> dom resp = {''results''}"
proof -
  from assms obtain t1 w2 fc v where s:
    "os_makedirs (fs w) (request_dir rid) = (t1, Inr ())"
    "copy_all (request_dir rid) (w\<lparr>fs := t1\<rparr>) files = ((w2, files'), Inr ())"
    "FileChecker lib (fs w2) ''/home/app/file_checker_spec'' = Inr fc"
    "check_files lib fc (fs w2) (glob_star (fs w2) (request_dir rid)) ''bodc'' = Inr v"
    "w' = w2\<lparr>calls := calls w2 @ [(glob_star (fs w2) (request_dir rid), ''bodc'')]\<rparr>"
    "resp = [''results'' \<mapsto> v]"
    by (rule check_file_list_Inr)
  have "calls w2 = calls w"
    using copy_all_inv [OF s(2)] by simp
  then have "calls w' = calls w @ [(glob_star (fs w2) (request_dir rid), ''bodc'')]"
    and "fs w' = fs w2"
    using s(5) by simp_all
  moreover have "files' = map drained files"
    using copy_all_Inr [OF s(2)] by simp
  moreover have "dom resp = {''results''}"
    using s(6) by simp
  moreover note s(1-4,6) glob_star_entries [of "fs w2" "request_dir rid"]
  ultimately show ?thesis
    by (intro exI [of _ t1] exI [of _ w2] exI [of _ fc] exI [of _ v] conjI)
qed

theorem check_file_list_calls_checker_once_witness:
  "check_file_list lib_ok 5 w0 scenario =
     ((\<lparr>fs = scenario_fs, free = 88,
        calls = [([request_dir 5 @ [''a.txt''], request_dir 5 @ [''b.csv'']], ''bodc'')]\<rparr>,
       map drained scenario),
      Inr [''results'' \<mapsto> [request_dir 5 @ [''a.txt''], request_dir 5 @ [''b.csv'']]]) \<and>
   [([request_dir 5 @ [''a.txt''], request_dir 5 @ [''b.csv'']], ''bodc'')] =
     calls w0 @ [(glob_star scenario_fs (request_dir 5), ''bodc'')] \<and>
   set (glob_star scenario_fs (request_dir 5)) =
     {p. lookup scenario_fs p \<noteq> None \<and> p \<noteq> [] \<and> butlast p = request_dir 5}"
proof -
  from check_file_list_calls_checker_once [OF scenario_run]
  obtain w2 :: world where c: "calls \<lparr>fs = scenario_fs, free = 88,
        calls = [([request_dir 5 @ [''a.txt''], request_dir 5 @ [''b.csv'']], ''bodc'')]\<rparr> =
      calls w0 @ [(glob_star (fs w2) (request_dir 5), ''bodc'')]"
    and f: "fs \<lparr>fs = scenario_fs, free = 88,
        calls = [([request_dir 5 @ [''a.txt''], request_dir 5 @ [''b.csv'']], ''bodc'')]\<rparr> = fs w2"
    and g: "set (glob_star (fs w2) (request_dir 5)) =
        {p. lookup (fs w2) p \<noteq> None \<and> p \<noteq> [] \<and> butlast p = request_dir 5}"
    by (elim exE conjE)
  have f': "fs w2 = scenario_fs" using f by simp
  show ?thesis
    using c g unfolding f' by (simp only: scenario_run world.simps simp_thms)
qed

section \<open>Exceptions\<close>

text \<open>
  C3. The handler catches nothing, at any level.

  Making the directory: when \<^verbatim>\<open>os.makedirs\<close> raises, the handler raises the same
  exception and the uploads are untouched.

  The body of the loop: when the open raises, the body raises the same exception; when
  the copy raises, the body raises the same exception, and what the copy had written
  by then, a prefix of the upload's bytes, is in the destination.

  The loop: let the body return for the first \<open>i\<close> uploads, each run in the world
  \<open>ws ! j\<close> that the one before left. When the body raises for upload \<open>i\<close>, the
  handler raises the same exception, the world is the one the failing body left, the
  uploads behind it are as they were, and the checker is not called. When the body
  returns for all the uploads and the constructor of the checker raises, or
  \<^verbatim>\<open>check_files\<close> raises, the handler raises the same exception.

  In all these cases the result is the exception, never a response; a response is the
  result when nothing has raised. Nothing is removed on the way, whatever the outcome:
  every entry of an earlier world is an entry of the later ones, and the request
  directory, once made, is a directory in all of them.
\<close>

theorem exceptions_propagate:
  assumes mk: "os_makedirs (fs w) (request_dir rid) = (t1, r1)"
  shows
   "(\<forall>e. r1 = Inl e \<longrightarrow>
       check_file_list lib rid w files = ((w\<lparr>fs := t1\<rparr>, files), Inl e) \<and> keeps (fs w) t1) \<and>
    (\<forall>vo e. open_wb v (joinpath d (filename u)) = (vo, Inl e) \<longrightarrow>
       copy_upload d v u = ((vo, u\<lparr>fileobj := close (fileobj u)\<rparr>), Inl e) \<and> vo = v) \<and>
    (\<forall>vo h vc s e. open_wb v (joinpath d (filename u)) = (vo, Inr h) \<and>
         copyfileobj 0 h vo (fileobj u) = ((vc, s), Inl e) \<longrightarrow>
       copy_upload d v u = ((vc, u\<lparr>fileobj := close s\<rparr>), Inl e) \<and>
       (\<exists>pre post. data (fileobj u) = pre @ post \<and> lookup (fs vc) h = Some (File pre)) \<and>
       keeps (fs v) (fs vc)) \<and>
    (r1 = Inr () \<and> length ws = Suc i \<and> i \<le> length files \<and> ws ! 0 = w\<lparr>fs := t1\<rparr> \<and>
     (\<forall>j<i. \<exists>u'. copy_upload (request_dir rid) (ws ! j) (files ! j) = ((ws ! Suc j, u'), Inr ())) \<longrightarrow>
       lookup (fs (ws ! i)) (request_dir rid) = Some Dir \<and> keeps (fs w) (fs (ws ! i)) \<and>
       (\<forall>j\<le>i. keeps (fs (ws ! j)) (fs (ws ! i))) \<and> calls (ws ! i) = calls w \<and>
       (\<forall>e wi ui. i < length files \<and>
           copy_upload (request_dir rid) (ws ! i) (files ! i) = ((wi, ui), Inl e) \<longrightarrow>
             check_file_list lib rid w files =
               ((wi, map drained (take i files) @ ui # drop (Suc i) files), Inl e) \<and>
             keeps (fs (ws ! i)) (fs wi) \<and> calls wi = calls w) \<and>
       (\<forall>e. i = length files \<and>
           FileChecker lib (fs (ws ! i)) ''/home/app/file_checker_spec'' = Inl e \<longrightarrow>
             check_file_list lib rid w files = ((ws ! i, map drained files), Inl e)) \<and>
       (\<forall>fc e. i = length files \<and>
           FileChecker lib (fs (ws ! i)) ''/home/app/file_checker_spec'' = Inr fc \<and>
           check_files lib fc (fs (ws ! i)) (glob_star (fs (ws ! i)) (request_dir rid)) ''bodc''
             = Inl e \<longrightarrow>
             check_file_list lib rid w files =
               (((ws ! i)\<lparr>calls := calls (ws ! i) @
                   [(glob_star (fs (ws ! i)) (request_dir rid), ''bodc'')]\<rparr>,
                 map drained files), Inl e)) \<and>
       (\<forall>fc x. i = length files \<and>
           FileChecker lib (fs (ws ! i)) ''/home/app/file_checker_spec'' = Inr fc \<and>
           check_files lib fc (fs (ws ! i)) (glob_star (fs (ws ! i)) (request_dir rid)) ''bodc''
             = Inr x \<longrightarrow>
             check_file_list lib rid w files =
               (((ws ! i)\<lparr>calls := calls (ws ! i) @
                   [(glob_star (fs (ws ! i)) (request_dir rid), ''bodc'')]\<rparr>,
                 map drained files), Inr [''results'' \<mapsto> x])))"
proof -
  have A: "\<forall>e. r1 = Inl e \<longrightarrow>
       check_file_list lib rid w files = ((w\<lparr>fs := t1\<rparr>, files), Inl e) \<and> keeps (fs w) t1"
  proof (intro allI impI conjI)
    fix e
    assume "r1 = Inl e"
    then show "check_file_list lib rid w files = ((w\<lparr>fs := t1\<rparr>, files), Inl e)"
      using mk by (simp add: check_file_list_def)
    show "keeps (fs w) t1"
      using keeps_os_makedirs [of "fs w" "request_dir rid"] mk by simp
  qed
  have B: "\<forall>vo e. open_wb v (joinpath d (filename u)) = (vo, Inl e) \<longrightarrow>
       copy_upload d v u = ((vo, u\<lparr>fileobj := close (fileobj u)\<rparr>), Inl e) \<and> vo = v"
  proof (intro allI impI conjI)
    fix vo e
    assume op: "open_wb v (joinpath d (filename u)) = (vo, Inl e)"
    then show "copy_upload d v u = ((vo, u\<lparr>fileobj := close (fileobj u)\<rparr>), Inl e)"
      by (simp add: copy_upload_def)
    show "vo = v" using op by (rule open_wb_Inl)
  qed
  have C: "\<forall>vo h vc s e. open_wb v (joinpath d (filename u)) = (vo, Inr h) \<and>
         copyfileobj 0 h vo (fileobj u) = ((vc, s), Inl e) \<longrightarrow>
       copy_upload d v u = ((vc, u\<lparr>fileobj := close s\<rparr>), Inl e) \<and>
       (\<exists>pre post. data (fileobj u) = pre @ post \<and> lookup (fs vc) h = Some (File pre)) \<and>
       keeps (fs v) (fs vc)"
  proof (intro allI impI conjI)
    fix vo h vc s e
    assume a: "open_wb v (joinpath d (filename u)) = (vo, Inr h) \<and>
         copyfileobj 0 h vo (fileobj u) = ((vc, s), Inl e)"
    then show cu: "copy_upload d v u = ((vc, u\<lparr>fileobj := close s\<rparr>), Inl e)"
      by (simp add: copy_upload_def)
    from a have op: "open_wb v (joinpath d (filename u)) = (vo, Inr h)"
      and cl: "copy_loop COPY_BUFSIZE h vo (fileobj u) = ((vc, s), Inl e)"
      by (simp_all add: copyfileobj_def)
    note o = open_wb_Inr [OF op]
    have l1: "lookup (fs vo) h = Some (File [])"
      using o(2,5) by (simp add: lookup_update)
    from copy_loop_result [OF cl l1] obtain pre post where
      "data (fileobj u) = pre @ post" "fs vc = AList.update h (File ([] @ pre)) (fs vo)"
      by blast
    then show "\<exists>pre post. data (fileobj u) = pre @ post \<and> lookup (fs vc) h = Some (File pre)"
      using o(2) by (auto simp: lookup_update)
    show "keeps (fs v) (fs vc)" using copy_upload_inv(1) [OF cu] .
  qed
  have D: "r1 = Inr () \<and> length ws = Suc i \<and> i \<le> length files \<and> ws ! 0 = w\<lparr>fs := t1\<rparr> \<and>
     (\<forall>j<i. \<exists>u'. copy_upload (request_dir rid) (ws ! j) (files ! j) = ((ws ! Suc j, u'), Inr ())) \<longrightarrow>
       lookup (fs (ws ! i)) (request_dir rid) = Some Dir \<and> keeps (fs w) (fs (ws ! i)) \<and>
       (\<forall>j\<le>i. keeps (fs (ws ! j)) (fs (ws ! i))) \<and> calls (ws ! i) = calls w \<and>
       (\<forall>e wi ui. i < length files \<and>
           copy_upload (request_dir rid) (ws ! i) (files ! i) = ((wi, ui), Inl e) \<longrightarrow>
             check_file_list lib rid w files =
               ((wi, map drained (take i files) @ ui # drop (Suc i) files), Inl e) \<and>
             keeps (fs (ws ! i)) (fs wi) \<and> calls wi = calls w) \<and>
       (\<forall>e. i = length files \<and>
           FileChecker lib (fs (ws ! i)) ''/home/app/file_checker_spec'' = Inl e \<longrightarrow>
             check_file_list lib rid w files = ((ws ! i, map drained files), Inl e)) \<and>
       (\<forall>fc e. i = length files \<and>
           FileChecker lib (fs (ws ! i)) ''/home/app/file_checker_spec'' = Inr fc \<and>
           check_files lib fc (fs (ws ! i)) (glob_star (fs (ws ! i)) (request_dir rid)) ''bodc''
             = Inl e \<longrightarrow>
             check_file_list lib rid w files =
               (((ws ! i)\<lparr>calls := calls (ws ! i) @
                   [(glob_star (fs (ws ! i)) (request_dir rid), ''bodc'')]\<rparr>,
                 map drained files), Inl e)) \<and>
       (\<forall>fc x. i = length files \<and>
           FileChecker lib (fs (ws ! i)) ''/home/app/file_checker_spec'' = Inr fc \<and>
           check_files lib fc (fs (ws ! i)) (glob_star (fs (ws ! i)) (request_dir rid)) ''bodc''
             = Inr x \<longrightarrow>
             check_file_list lib rid w files =
               (((ws ! i)\<lparr>calls := calls (ws ! i) @
                   [(glob_star (fs (ws ! i)) (request_dir rid), ''bodc'')]\<rparr>,
                 map drained files), Inr [''results'' \<mapsto> x]))"
  proof (rule impI)
    assume a: "r1 = Inr () \<and> length ws = Suc i \<and> i \<le> length files \<and> ws ! 0 = w\<lparr>fs := t1\<rparr> \<and>
       (\<forall>j<i. \<exists>u'. copy_upload (request_dir rid) (ws ! j) (files ! j) = ((ws ! Suc j, u'), Inr ()))"
    then have r1: "r1 = Inr ()" and len: "length ws = Suc i" and i: "i \<le> length files"
      and start: "ws ! 0 = w\<lparr>fs := t1\<rparr>"
      and chain: "\<forall>j<i. \<exists>u'. copy_upload (request_dir rid) (ws ! j) (files ! j) =
          ((ws ! Suc j, u'), Inr ())"
      by simp_all
    have k0: "keeps (fs w) (fs (ws ! 0))"
      using keeps_os_makedirs [of "fs w" "request_dir rid"] mk start by simp
    note sk = steps_keep [OF chain]
    have kw: "keeps (fs w) (fs (ws ! i))"
      using k0 sk [of 0] keeps_trans by blast
    have ka: "\<forall>j\<le>i. keeps (fs (ws ! j)) (fs (ws ! i))"
      using sk by blast
    have ci: "calls (ws ! i) = calls w"
      using sk [of 0] start by simp
    have "lookup (fs (ws ! 0)) (request_dir rid) = Some Dir"
      using os_makedirs_made [OF mk [unfolded r1] request_dir_facts(1)] start by simp
    then have dir: "lookup (fs (ws ! i)) (request_dir rid) = Some Dir"
      using sk [of 0] by (simp add: keeps_def)
    note run = copy_all_steps [OF len i chain]
    have all: "copy_all (request_dir rid) (w\<lparr>fs := t1\<rparr>) files = ((ws ! i, map drained files), Inr ())"
      if "i = length files"
      using run that start by simp
    have F: "\<forall>e wi ui. i < length files \<and>
           copy_upload (request_dir rid) (ws ! i) (files ! i) = ((wi, ui), Inl e) \<longrightarrow>
             check_file_list lib rid w files =
               ((wi, map drained (take i files) @ ui # drop (Suc i) files), Inl e) \<and>
             keeps (fs (ws ! i)) (fs wi) \<and> calls wi = calls w"
    proof (intro allI impI conjI)
      fix e wi ui
      assume f: "i < length files \<and>
             copy_upload (request_dir rid) (ws ! i) (files ! i) = ((wi, ui), Inl e)"
      then have dr: "drop i files = files ! i # drop (Suc i) files"
        by (simp add: Cons_nth_drop_Suc)
      have "copy_all (request_dir rid) (w\<lparr>fs := t1\<rparr>) files =
          ((wi, map drained (take i files) @ ui # drop (Suc i) files), Inl e)"
        using run f start unfolding dr by simp
      then show "check_file_list lib rid w files =
                 ((wi, map drained (take i files) @ ui # drop (Suc i) files), Inl e)"
        using mk r1 by (simp add: check_file_list_def)
      from f have cu: "copy_upload (request_dir rid) (ws ! i) (files ! i) = ((wi, ui), Inl e)"
        by simp
      show "keeps (fs (ws ! i)) (fs wi)" using copy_upload_inv(1) [OF cu] .
      show "calls wi = calls w" using copy_upload_inv(4) [OF cu] ci by simp
    qed
    have G: "\<forall>e. i = length files \<and>
           FileChecker lib (fs (ws ! i)) ''/home/app/file_checker_spec'' = Inl e \<longrightarrow>
             check_file_list lib rid w files = ((ws ! i, map drained files), Inl e)"
    proof (intro allI impI)
      fix e
      assume g: "i = length files \<and>
           FileChecker lib (fs (ws ! i)) ''/home/app/file_checker_spec'' = Inl e"
      then have il: "i = length files"
        and fc: "FileChecker lib (fs (ws ! i)) ''/home/app/file_checker_spec'' = Inl e"
        by blast+
      show "check_file_list lib rid w files = ((ws ! i, map drained files), Inl e)"
        using mk r1 all [OF il] fc by (simp add: check_file_list_def)
    qed
    have H: "\<forall>fc e. i = length files \<and>
           FileChecker lib (fs (ws ! i)) ''/home/app/file_checker_spec'' = Inr fc \<and>
           check_files lib fc (fs (ws ! i)) (glob_star (fs (ws ! i)) (request_dir rid)) ''bodc''
             = Inl e \<longrightarrow>
             check_file_list lib rid w files =
               (((ws ! i)\<lparr>calls := calls (ws ! i) @
                   [(glob_star (fs (ws ! i)) (request_dir rid), ''bodc'')]\<rparr>,
                 map drained files), Inl e)"
    proof (intro allI impI)
      fix fc e
      assume h: "i = length files \<and>
           FileChecker lib (fs (ws ! i)) ''/home/app/file_checker_spec'' = Inr fc \<and>
           check_files lib fc (fs (ws ! i)) (glob_star (fs (ws ! i)) (request_dir rid)) ''bodc''
             = Inl e"
      then have il: "i = length files"
        and fc: "FileChecker lib (fs (ws ! i)) ''/home/app/file_checker_spec'' = Inr fc"
        and cf: "check_files lib fc (fs (ws ! i)) (glob_star (fs (ws ! i)) (request_dir rid))
            ''bodc'' = Inl e"
        by blast+
      show "check_file_list lib rid w files =
               (((ws ! i)\<lparr>calls := calls (ws ! i) @
                   [(glob_star (fs (ws ! i)) (request_dir rid), ''bodc'')]\<rparr>,
                 map drained files), Inl e)"
        using mk r1 all [OF il] fc cf by (simp add: check_file_list_def Let_def)
    qed
    have I: "\<forall>fc x. i = length files \<and>
           FileChecker lib (fs (ws ! i)) ''/home/app/file_checker_spec'' = Inr fc \<and>
           check_files lib fc (fs (ws ! i)) (glob_star (fs (ws ! i)) (request_dir rid)) ''bodc''
             = Inr x \<longrightarrow>
             check_file_list lib rid w files =
               (((ws ! i)\<lparr>calls := calls (ws ! i) @
                   [(glob_star (fs (ws ! i)) (request_dir rid), ''bodc'')]\<rparr>,
                 map drained files), Inr [''results'' \<mapsto> x])"
    proof (intro allI impI)
      fix fc x
      assume h: "i = length files \<and>
           FileChecker lib (fs (ws ! i)) ''/home/app/file_checker_spec'' = Inr fc \<and>
           check_files lib fc (fs (ws ! i)) (glob_star (fs (ws ! i)) (request_dir rid)) ''bodc''
             = Inr x"
      then have il: "i = length files"
        and fc: "FileChecker lib (fs (ws ! i)) ''/home/app/file_checker_spec'' = Inr fc"
        and cf: "check_files lib fc (fs (ws ! i)) (glob_star (fs (ws ! i)) (request_dir rid))
            ''bodc'' = Inr x"
        by blast+
      show "check_file_list lib rid w files =
               (((ws ! i)\<lparr>calls := calls (ws ! i) @
                   [(glob_star (fs (ws ! i)) (request_dir rid), ''bodc'')]\<rparr>,
                 map drained files), Inr [''results'' \<mapsto> x])"
        using mk r1 all [OF il] fc cf by (simp add: check_file_list_def Let_def)
    qed
    show "lookup (fs (ws ! i)) (request_dir rid) = Some Dir \<and> keeps (fs w) (fs (ws ! i)) \<and>
       (\<forall>j\<le>i. keeps (fs (ws ! j)) (fs (ws ! i))) \<and> calls (ws ! i) = calls w \<and>
       (\<forall>e wi ui. i < length files \<and>
           copy_upload (request_dir rid) (ws ! i) (files ! i) = ((wi, ui), Inl e) \<longrightarrow>
             check_file_list lib rid w files =
               ((wi, map drained (take i files) @ ui # drop (Suc i) files), Inl e) \<and>
             keeps (fs (ws ! i)) (fs wi) \<and> calls wi = calls w) \<and>
       (\<forall>e. i = length files \<and>
           FileChecker lib (fs (ws ! i)) ''/home/app/file_checker_spec'' = Inl e \<longrightarrow>
             check_file_list lib rid w files = ((ws ! i, map drained files), Inl e)) \<and>
       (\<forall>fc e. i = length files \<and>
           FileChecker lib (fs (ws ! i)) ''/home/app/file_checker_spec'' = Inr fc \<and>
           check_files lib fc (fs (ws ! i)) (glob_star (fs (ws ! i)) (request_dir rid)) ''bodc''
             = Inl e \<longrightarrow>
             check_file_list lib rid w files =
               (((ws ! i)\<lparr>calls := calls (ws ! i) @
                   [(glob_star (fs (ws ! i)) (request_dir rid), ''bodc'')]\<rparr>,
                 map drained files), Inl e)) \<and>
       (\<forall>fc x. i = length files \<and>
           FileChecker lib (fs (ws ! i)) ''/home/app/file_checker_spec'' = Inr fc \<and>
           check_files lib fc (fs (ws ! i)) (glob_star (fs (ws ! i)) (request_dir rid)) ''bodc''
             = Inr x \<longrightarrow>
             check_file_list lib rid w files =
               (((ws ! i)\<lparr>calls := calls (ws ! i) @
                   [(glob_star (fs (ws ! i)) (request_dir rid), ''bodc'')]\<rparr>,
                 map drained files), Inr [''results'' \<mapsto> x]))"
      by (rule conjI [OF dir conjI [OF kw conjI [OF ka conjI [OF ci conjI [OF F conjI [OF G conjI [OF H I]]]]]]])
  qed
  show ?thesis
    by (rule conjI [OF A conjI [OF B conjI [OF C D]]])
qed

theorem exceptions_propagate_witness:
  "os_makedirs (fs w_taken) (request_dir 5) = (made_fs, Inl FileExistsError) \<and>
   check_file_list lib_ok 5 w_taken scenario =
     ((w_taken\<lparr>fs := made_fs\<rparr>, scenario), Inl FileExistsError) \<and>
   os_makedirs (fs w0) (request_dir 5) = (made_fs, Inr ()) \<and>
   copy_upload (request_dir 5) \<lparr>fs = made_fs, free = 100, calls = []\<rparr> (broken_files ! 0) =
     ((\<lparr>fs = made_fs @ [(request_dir 5 @ [''a.txt''], File [1])], free = 99, calls = []\<rparr>,
       drained (up ''a.txt'' [1])), Inr ()) \<and>
   open_wb \<lparr>fs = made_fs @ [(request_dir 5 @ [''a.txt''], File [1])], free = 99, calls = []\<rparr>
      (joinpath (request_dir 5) (filename (broken_files ! 1))) =
     (\<lparr>fs = made_fs @ [(request_dir 5 @ [''a.txt''], File [1])], free = 99, calls = []\<rparr>,
      Inl FileNotFoundError) \<and>
   check_file_list lib_ok 5 w0 broken_files =
     ((\<lparr>fs = made_fs @ [(request_dir 5 @ [''a.txt''], File [1])], free = 99, calls = []\<rparr>,
       [drained (up ''a.txt'' [1]), \<lparr>filename = ''sub/x'', fileobj = \<lparr>data = [2], closed = True\<rparr>\<rparr>,
        up ''c'' [3]]),
      Inl FileNotFoundError) \<and>
   os_makedirs (fs w_tight) (request_dir 5) = (made_fs, Inr ()) \<and>
   open_wb \<lparr>fs = made_fs, free = 65536, calls = []\<rparr>
       (joinpath (request_dir 5) (filename (big_files ! 0))) =
     (\<lparr>fs = made_fs @ [(request_dir 5 @ [''big.bin''], File [])], free = 65536, calls = []\<rparr>,
      Inr (request_dir 5 @ [''big.bin''])) \<and>
   copyfileobj 0 (request_dir 5 @ [''big.bin''])
       \<lparr>fs = made_fs @ [(request_dir 5 @ [''big.bin''], File [])], free = 65536, calls = []\<rparr>
       (fileobj (big_files ! 0)) =
     ((\<lparr>fs = made_fs @ [(request_dir 5 @ [''big.bin''], File (replicate 65536 0))],
        free = 0, calls = []\<rparr>,
       \<lparr>data = [], closed = False\<rparr>), Inl OSError) \<and>
   check_file_list lib_ok 5 w_tight big_files =
     ((\<lparr>fs = made_fs @ [(request_dir 5 @ [''big.bin''], File (replicate 65536 0))],
        free = 0, calls = []\<rparr>,
       [drained (up ''big.bin'' []), up ''c'' [3]]), Inl OSError) \<and>
   FileChecker lib_noinit scenario_fs ''/home/app/file_checker_spec''
     = Inl (LibraryError ''no specs'') \<and>
   check_file_list lib_noinit 5 w0 scenario =
     ((\<lparr>fs = scenario_fs, free = 88, calls = []\<rparr>, map drained scenario),
      Inl (LibraryError ''no specs'')) \<and>
   FileChecker lib_reject scenario_fs ''/home/app/file_checker_spec'' = Inr () \<and>
   check_files lib_reject () scenario_fs (glob_star scenario_fs (request_dir 5)) ''bodc''
     = Inl (LibraryError ''bad spec'') \<and>
   check_file_list lib_reject 5 w0 scenario =
     ((\<lparr>fs = scenario_fs, free = 88,
        calls = [([request_dir 5 @ [''a.txt''], request_dir 5 @ [''b.csv'']], ''bodc'')]\<rparr>,
       map drained scenario),
      Inl (LibraryError ''bad spec''))"
proof -
  let ?M = "\<lparr>fs = made_fs, free = 100, calls = []\<rparr>"
  let ?A = "\<lparr>fs = made_fs @ [(request_dir 5 @ [''a.txt''], File [1])], free = 99, calls = []\<rparr>"
  let ?X = "\<lparr>filename = ''sub/x'', fileobj = \<lparr>data = [2], closed = True\<rparr>\<rparr>"
  let ?T = "\<lparr>fs = made_fs, free = 65536, calls = []\<rparr>"
  let ?O = "\<lparr>fs = made_fs @ [(request_dir 5 @ [''big.bin''], File [])], free = 65536, calls = []\<rparr>"
  let ?B = "\<lparr>fs = made_fs @ [(request_dir 5 @ [''big.bin''], File (replicate 65536 0))],
        free = 0, calls = []\<rparr>"
  let ?S1 = "\<lparr>fs = made_fs @ [(request_dir 5 @ [''a.txt''], File [104, 101, 108, 108, 111])],
        free = 95, calls = []\<rparr>"
  let ?S2 = "\<lparr>fs = scenario_fs, free = 88, calls = []\<rparr>"
  note A = exceptions_propagate [THEN conjunct1, rule_format, THEN conjunct1]
  note B = exceptions_propagate [THEN conjunct2, THEN conjunct1, rule_format, THEN conjunct1]
  note C = exceptions_propagate [THEN conjunct2, THEN conjunct2, THEN conjunct1, rule_format]
  note D = exceptions_propagate [THEN conjunct2, THEN conjunct2, THEN conjunct2, THEN mp]
  have taken: "check_file_list lib_ok 5 w_taken scenario =
     ((w_taken\<lparr>fs := made_fs\<rparr>, scenario), Inl FileExistsError)"
    by (rule A [OF makedirs_w_taken refl])
  have b0: "copy_upload (request_dir 5) ?M (broken_files ! 0) = ((?A, drained (up ''a.txt'' [1])), Inr ())"
    using broken_first by (simp add: broken_files_def)
  have b1o: "open_wb ?A (joinpath (request_dir 5) (filename (broken_files ! 1))) =
      (?A, Inl FileNotFoundError)"
    using broken_second_open by (simp add: broken_files_def up_def)
  have b1: "copy_upload (request_dir 5) ?A (broken_files ! 1) =
      ((?A, (broken_files ! 1)\<lparr>fileobj := close (fileobj (broken_files ! 1))\<rparr>), Inl FileNotFoundError)"
    by (rule B [OF makedirs_w0 b1o])
  have pre1: "Inr () = (Inr () :: error + unit) \<and> length [?M, ?A] = Suc 1 \<and> 1 \<le> length broken_files \<and>
      [?M, ?A] ! 0 = w0\<lparr>fs := made_fs\<rparr> \<and>
      (\<forall>j<1. \<exists>u'. copy_upload (request_dir 5) ([?M, ?A] ! j) (broken_files ! j) =
      (([?M, ?A] ! Suc j, u'), Inr ()))"
    using b0 by (simp add: broken_files_def made_fs_w0)
  have fail1: "1 < length broken_files \<and>
      copy_upload (request_dir 5) ([?M, ?A] ! 1) (broken_files ! 1) =
      ((?A, (broken_files ! 1)\<lparr>fileobj := close (fileobj (broken_files ! 1))\<rparr>), Inl FileNotFoundError)"
    using b1 by (simp add: broken_files_def)
  note F1 = D [OF makedirs_w0 pre1, THEN conjunct2, THEN conjunct2, THEN conjunct2, THEN conjunct2,
      THEN conjunct1, rule_format, OF fail1, THEN conjunct1]
  have broken: "check_file_list lib_ok 5 w0 broken_files =
     ((?A, [drained (up ''a.txt'' [1]), ?X, up ''c'' [3]]), Inl FileNotFoundError)"
    using F1 [of lib_ok] by (simp add: broken_files_def up_def close_def)
  have tight: "w_tight\<lparr>fs := made_fs\<rparr> = ?T" by (simp add: w_tight_def)
  have g0o: "open_wb ?T (joinpath (request_dir 5) (filename (big_files ! 0))) =
      (?O, Inr (request_dir 5 @ [''big.bin'']))"
    using big_open by (simp add: big_files_def up_def)
  have g0c: "copyfileobj 0 (request_dir 5 @ [''big.bin'']) ?O (fileobj (big_files ! 0)) =
      ((?B, \<lparr>data = [], closed = False\<rparr>), Inl OSError)"
    using big_copy by (simp add: big_files_def up_def)
  have g0: "copy_upload (request_dir 5) ?T (big_files ! 0) =
      ((?B, (big_files ! 0)\<lparr>fileobj := close \<lparr>data = [], closed = False\<rparr>\<rparr>), Inl OSError)"
    by (rule C [OF makedirs_w_tight conjI [OF g0o g0c], THEN conjunct1])
  have pre2: "Inr () = (Inr () :: error + unit) \<and> length [?T] = Suc 0 \<and> 0 \<le> length big_files \<and>
      [?T] ! 0 = w_tight\<lparr>fs := made_fs\<rparr> \<and>
      (\<forall>j<0. \<exists>u'. copy_upload (request_dir 5) ([?T] ! j) (big_files ! j) =
      (([?T] ! Suc j, u'), Inr ()))"
    by (simp add: tight)
  have fail2: "0 < length big_files \<and>
      copy_upload (request_dir 5) ([?T] ! 0) (big_files ! 0) =
      ((?B, (big_files ! 0)\<lparr>fileobj := close \<lparr>data = [], closed = False\<rparr>\<rparr>), Inl OSError)"
    using g0 by (simp add: big_files_def)
  note F2 = D [OF makedirs_w_tight pre2, THEN conjunct2, THEN conjunct2, THEN conjunct2,
      THEN conjunct2, THEN conjunct1, rule_format, OF fail2, THEN conjunct1]
  have big: "check_file_list lib_ok 5 w_tight big_files =
     ((?B, [drained (up ''big.bin'' []), up ''c'' [3]]), Inl OSError)"
    using F2 [of lib_ok] by (simp add: big_files_def up_def close_def drained_def)
  have s0: "copy_upload (request_dir 5) ([?M, ?S1, ?S2] ! 0) (scenario ! 0) =
      (([?M, ?S1, ?S2] ! Suc 0, drained (scenario ! 0)), Inr ())"
    using scenario_first by (simp add: scenario_def)
  have s1: "copy_upload (request_dir 5) ([?M, ?S1, ?S2] ! 1) (scenario ! 1) =
      (([?M, ?S1, ?S2] ! Suc 1, drained (scenario ! 1)), Inr ())"
    using scenario_second by (simp add: scenario_def)
  have chain3: "\<forall>j<2. \<exists>u'. copy_upload (request_dir 5) ([?M, ?S1, ?S2] ! j) (scenario ! j) =
      (([?M, ?S1, ?S2] ! Suc j, u'), Inr ())"
  proof (intro allI impI)
    fix j :: nat
    assume "j < 2"
    then consider "j = 0" | "j = 1" by linarith
    then show "\<exists>u'. copy_upload (request_dir 5) ([?M, ?S1, ?S2] ! j) (scenario ! j) =
      (([?M, ?S1, ?S2] ! Suc j, u'), Inr ())"
    proof cases
      case 1
      show ?thesis unfolding 1 using s0 by (rule exI)
    next
      case 2
      show ?thesis unfolding 2 using s1 by (rule exI)
    qed
  qed
  have pre3: "Inr () = (Inr () :: error + unit) \<and> length [?M, ?S1, ?S2] = Suc 2 \<and>
      2 \<le> length scenario \<and> [?M, ?S1, ?S2] ! 0 = w0\<lparr>fs := made_fs\<rparr> \<and>
      (\<forall>j<2. \<exists>u'. copy_upload (request_dir 5) ([?M, ?S1, ?S2] ! j) (scenario ! j) =
      (([?M, ?S1, ?S2] ! Suc j, u'), Inr ()))"
    using chain3 by (simp add: scenario_def made_fs_w0)
  note D3 = D [OF makedirs_w0 pre3, THEN conjunct2, THEN conjunct2, THEN conjunct2,
      THEN conjunct2, THEN conjunct2]
  have n0: "FileChecker lib_noinit scenario_fs ''/home/app/file_checker_spec''
     = Inl (LibraryError ''no specs'')"
    by (simp add: lib_noinit_def)
  have n1: "2 = length scenario \<and>
      FileChecker lib_noinit (fs ([?M, ?S1, ?S2] ! 2)) ''/home/app/file_checker_spec''
        = Inl (LibraryError ''no specs'')"
    using n0 by (simp add: scenario_def)
  have noinit: "check_file_list lib_noinit 5 w0 scenario =
     ((?S2, map drained scenario), Inl (LibraryError ''no specs''))"
    using D3 [THEN conjunct1, rule_format, OF n1] by simp
  have r0: "FileChecker lib_reject scenario_fs ''/home/app/file_checker_spec'' = Inr ()"
    "check_files lib_reject () scenario_fs (glob_star scenario_fs (request_dir 5)) ''bodc''
     = Inl (LibraryError ''bad spec'')"
    by (simp_all add: lib_reject_def)
  have r1: "2 = length scenario \<and>
      FileChecker lib_reject (fs ([?M, ?S1, ?S2] ! 2)) ''/home/app/file_checker_spec'' = Inr () \<and>
      check_files lib_reject () (fs ([?M, ?S1, ?S2] ! 2))
        (glob_star (fs ([?M, ?S1, ?S2] ! 2)) (request_dir 5)) ''bodc''
        = Inl (LibraryError ''bad spec'')"
    using r0 by (simp add: scenario_def)
  have gl: "glob_star scenario_fs (request_dir 5) =
      [request_dir 5 @ [''a.txt''], request_dir 5 @ [''b.csv'']]"
    by (simp add: glob_star_def scenario_fs_def request_dir_eq uuid_str_neq)
  have reject: "check_file_list lib_reject 5 w0 scenario =
     ((\<lparr>fs = scenario_fs, free = 88,
        calls = [([request_dir 5 @ [''a.txt''], request_dir 5 @ [''b.csv'']], ''bodc'')]\<rparr>,
       map drained scenario),
      Inl (LibraryError ''bad spec''))"
    using D3 [THEN conjunct2, THEN conjunct1, rule_format, OF r1] by (simp add: gl)
  show ?thesis
    using makedirs_w_taken taken makedirs_w0 b0 b1o broken makedirs_w_tight g0o g0c big
      n0 noinit r0 reject
    by (intro conjI)
qed

section \<open>Opening the destination\<close>

text \<open>
  C4, as stated, fails: the open is not exclusive. Where \<^verbatim>\<open>a.txt\<close> already exists in
  the request directory, opening it again succeeds, and the loop body for a second
  upload of that name succeeds and replaces the content.
\<close>

theorem exclusive_open_counterexample:
  "lookup scenario_fs (request_dir 5 @ [''a.txt'']) = Some (File [104, 101, 108, 108, 111]) \<and>
   snd (open_wb \<lparr>fs = scenario_fs, free = 88, calls = []\<rparr> (joinpath (request_dir 5) ''a.txt''))
     = Inr (request_dir 5 @ [''a.txt'']) \<and>
   snd (copy_upload (request_dir 5) \<lparr>fs = scenario_fs, free = 88, calls = []\<rparr> (up ''a.txt'' [4]))
     = Inr () \<and>
   lookup (fs (fst (fst (copy_upload (request_dir 5) \<lparr>fs = scenario_fs, free = 88, calls = []\<rparr>
        (up ''a.txt'' [4])))))
     (request_dir 5 @ [''a.txt'']) = Some (File [4])"
  by (simp add: run_simps scenario_fs_def)

text \<open>
  C4, amended. For each upload the body of the loop opens
  \<^verbatim>\<open>request_file_dir.joinpath(name)\<close> in mode \<^verbatim>\<open>"wb"\<close>, which creates or
  truncates and is never exclusive: whatever the name, the body does not raise
  \<^verbatim>\<open>FileExistsError\<close>.

  For a plain name, one path component: a name with a NUL byte is refused with
  \<^verbatim>\<open>ValueError\<close> and nothing is changed. For a plain name without a NUL byte, on
  a well-formed filesystem on which the request directory exists: a name of more than
  \<^verbatim>\<open>NAME_MAX\<close> bytes is refused with \<^verbatim>\<open>OSError\<close> and nothing is changed. For
  a name within the limit: where a directory has the name, the body raises
  \<^verbatim>\<open>IsADirectoryError\<close> and changes nothing; where a file or nothing has the
  name, the file is emptied or created, the bytes it had are free again, and it is left
  with a prefix of the upload's bytes, all of them when the body returns; the body
  raises \<^verbatim>\<open>ValueError\<close> when the stream is closed, \<^verbatim>\<open>OSError\<close> when the
  upload's bytes do not fit in the free space and the space of the old file together,
  and returns otherwise.
\<close>

theorem destination_created_or_truncated:
  assumes run: "copy_upload (request_dir rid) w u = ((w', u'), r)"
  shows
   "r \<noteq> Inl FileExistsError \<and>
    (plain_name (filename u) \<and> CHR 0x00 \<in> set (filename u) \<longrightarrow> r = Inl ValueError \<and> w' = w) \<and>
    (wf_fs (fs w) \<and> lookup (fs w) (request_dir rid) = Some Dir \<and> plain_name (filename u) \<and>
     CHR 0x00 \<notin> set (filename u) \<longrightarrow>
       (NAME_MAX < length (filename u) \<longrightarrow> r = Inl OSError \<and> w' = w) \<and>
       (length (filename u) \<le> NAME_MAX \<longrightarrow>
          (lookup (fs w) (request_dir rid @ [filename u]) = Some Dir \<longrightarrow>
             r = Inl IsADirectoryError \<and> w' = w) \<and>
          (lookup (fs w) (request_dir rid @ [filename u]) \<noteq> Some Dir \<longrightarrow>
             (\<exists>pre post. data (fileobj u) = pre @ post \<and>
                fs w' = AList.update (request_dir rid @ [filename u]) (File pre) (fs w) \<and>
                free w' + length pre =
                  free w + (case lookup (fs w) (request_dir rid @ [filename u]) of
                              Some (File old) \<Rightarrow> length old | _ \<Rightarrow> 0) \<and>
                (r = Inr () \<longrightarrow> post = [])) \<and>
             r = (if closed (fileobj u) then Inl ValueError
                  else if free w + (case lookup (fs w) (request_dir rid @ [filename u]) of
                                      Some (File old) \<Rightarrow> length old | _ \<Rightarrow> 0)
                          < length (data (fileobj u)) then Inl OSError
                  else Inr ()))))"
proof -
  have A: "r \<noteq> Inl FileExistsError"
    using copy_upload_not_exists [of "request_dir rid" w u] run by simp
  have B: "plain_name (filename u) \<and> CHR 0x00 \<in> set (filename u) \<longrightarrow> r = Inl ValueError \<and> w' = w"
  proof (rule impI)
    assume a: "plain_name (filename u) \<and> CHR 0x00 \<in> set (filename u)"
    then have jp: "joinpath (request_dir rid) (filename u) = request_dir rid @ [filename u]"
      by (simp add: joinpath_plain)
    have "open_wb w (request_dir rid @ [filename u]) = (w, Inl ValueError)"
      using a by (simp add: open_wb_def)
    then show "r = Inl ValueError \<and> w' = w"
      using run by (simp add: copy_upload_def jp)
  qed
  have C: "wf_fs (fs w) \<and> lookup (fs w) (request_dir rid) = Some Dir \<and> plain_name (filename u) \<and>
     CHR 0x00 \<notin> set (filename u) \<longrightarrow>
       (NAME_MAX < length (filename u) \<longrightarrow> r = Inl OSError \<and> w' = w) \<and>
       (length (filename u) \<le> NAME_MAX \<longrightarrow>
          (lookup (fs w) (request_dir rid @ [filename u]) = Some Dir \<longrightarrow>
             r = Inl IsADirectoryError \<and> w' = w) \<and>
          (lookup (fs w) (request_dir rid @ [filename u]) \<noteq> Some Dir \<longrightarrow>
             (\<exists>pre post. data (fileobj u) = pre @ post \<and>
                fs w' = AList.update (request_dir rid @ [filename u]) (File pre) (fs w) \<and>
                free w' + length pre =
                  free w + (case lookup (fs w) (request_dir rid @ [filename u]) of
                              Some (File old) \<Rightarrow> length old | _ \<Rightarrow> 0) \<and>
                (r = Inr () \<longrightarrow> post = [])) \<and>
             r = (if closed (fileobj u) then Inl ValueError
                  else if free w + (case lookup (fs w) (request_dir rid @ [filename u]) of
                                      Some (File old) \<Rightarrow> length old | _ \<Rightarrow> 0)
                          < length (data (fileobj u)) then Inl OSError
                  else Inr ())))"
  proof (rule impI)
    assume a: "wf_fs (fs w) \<and> lookup (fs w) (request_dir rid) = Some Dir \<and>
      plain_name (filename u) \<and> CHR 0x00 \<notin> set (filename u)"
    then have wf: "wf_fs (fs w)" and dir: "lookup (fs w) (request_dir rid) = Some Dir"
      and plain: "plain_name (filename u)" and nul: "CHR 0x00 \<notin> set (filename u)"
      by blast+
    note c = copy_upload_plain_name [OF run wf dir plain nul]
    show "(NAME_MAX < length (filename u) \<longrightarrow> r = Inl OSError \<and> w' = w) \<and>
       (length (filename u) \<le> NAME_MAX \<longrightarrow>
          (lookup (fs w) (request_dir rid @ [filename u]) = Some Dir \<longrightarrow>
             r = Inl IsADirectoryError \<and> w' = w) \<and>
          (lookup (fs w) (request_dir rid @ [filename u]) \<noteq> Some Dir \<longrightarrow>
             (\<exists>pre post. data (fileobj u) = pre @ post \<and>
                fs w' = AList.update (request_dir rid @ [filename u]) (File pre) (fs w) \<and>
                free w' + length pre =
                  free w + (case lookup (fs w) (request_dir rid @ [filename u]) of
                              Some (File old) \<Rightarrow> length old | _ \<Rightarrow> 0) \<and>
                (r = Inr () \<longrightarrow> post = [])) \<and>
             r = (if closed (fileobj u) then Inl ValueError
                  else if free w + (case lookup (fs w) (request_dir rid @ [filename u]) of
                                      Some (File old) \<Rightarrow> length old | _ \<Rightarrow> 0)
                          < length (data (fileobj u)) then Inl OSError
                  else Inr ())))"
      using c by (intro conjI [OF impI impI] conjI [OF impI impI]) blast+
  qed
  show ?thesis
    by (rule conjI [OF A conjI [OF B C]])
qed

theorem destination_created_or_truncated_witness:
  "wf_fs (fs w_full) \<and> lookup (fs w_full) (request_dir 5) = Some Dir \<and>
   plain_name ''a.txt'' \<and> CHR 0x00 \<notin> set ''a.txt'' \<and> length ''a.txt'' \<le> NAME_MAX \<and>
   lookup (fs w_full) (request_dir 5 @ [''a.txt'']) = Some (File [104, 101, 108, 108, 111]) \<and>
   free w_full = 0 \<and>
   copy_upload (request_dir 5) w_full (up ''a.txt'' [9, 8, 7, 6, 5]) =
     ((\<lparr>fs = AList.update (request_dir 5 @ [''a.txt'']) (File [9, 8, 7, 6, 5]) scenario_fs,
        free = 0, calls = []\<rparr>, drained (up ''a.txt'' [9, 8, 7, 6, 5])), Inr ()) \<and>
   plain_name (replicate 256 (CHR ''a'')) \<and> CHR 0x00 \<notin> set (replicate 256 (CHR ''a'')) \<and>
   snd (copy_upload (request_dir 5) w_full (up (replicate 256 (CHR ''a'')) [4]))
     = Inl OSError \<and>
   fst (fst (copy_upload (request_dir 5) w_full (up (replicate 256 (CHR ''a'')) [4])))
     = w_full"
proof -
  let ?d = "request_dir 5"
  let ?u = "up ''a.txt'' [9, 8, 7, 6, 5]"
  let ?l = "up (replicate 256 (CHR ''a'')) [4]"
  have wf: "wf_fs (fs w_full)" using wf_fs_scenario by (simp add: w_full_def)
  have dir: "lookup (fs w_full) ?d = Some Dir"
    by (simp add: w_full_def scenario_fs_def lookup_def request_dir_eq uuid_str_neq)
  have old: "lookup (fs w_full) (?d @ [''a.txt'']) = Some (File [104, 101, 108, 108, 111])"
    by (simp add: w_full_def scenario_fs_def lookup_def request_dir_eq uuid_str_neq)
  have fr: "free w_full = 0" by (simp add: w_full_def)
  have pa: "plain_name ''a.txt''" "CHR 0x00 \<notin> set ''a.txt''" "length ''a.txt'' \<le> NAME_MAX"
    by (simp_all add: plain_name_def NAME_MAX_def)
  obtain w' u' r where run: "copy_upload ?d w_full ?u = ((w', u'), r)"
    by (metis surj_pair)
  have hyp: "wf_fs (fs w_full) \<and> lookup (fs w_full) ?d = Some Dir \<and>
      plain_name (filename ?u) \<and> CHR 0x00 \<notin> set (filename ?u)"
    using wf dir pa by (simp add: up_def)
  note th = destination_created_or_truncated [OF run, THEN conjunct2, THEN conjunct2, THEN mp, OF hyp,
      THEN conjunct2, THEN mp]
  have sh: "length (filename ?u) \<le> NAME_MAX" using pa by (simp add: up_def)
  have nodir: "lookup (fs w_full) (?d @ [filename ?u]) \<noteq> Some Dir"
    using old by (simp add: up_def)
  note t = th [OF sh, THEN conjunct2, THEN mp, OF nodir]
  have r: "r = Inr ()"
    using t [THEN conjunct2] old fr by (simp add: up_def)
  from t [THEN conjunct1] r obtain pre post where p:
    "data (fileobj ?u) = pre @ post" "post = []"
    "fs w' = AList.update (?d @ [filename ?u]) (File pre) (fs w_full)"
    "free w' + length pre = free w_full +
        (case lookup (fs w_full) (?d @ [filename ?u]) of
           Some (File old) \<Rightarrow> length old | _ \<Rightarrow> 0)"
    by blast
  have pre: "pre = [9, 8, 7, 6, 5]" using p(1,2) by (simp add: up_def)
  have w': "fs w' = AList.update (?d @ [''a.txt'']) (File [9, 8, 7, 6, 5]) scenario_fs"
    "free w' = 0"
    using p(3,4) old fr unfolding pre by (simp_all add: up_def w_full_def)
  have "calls w' = calls w_full" using copy_upload_inv(4) [OF run] .
  then have "w' = \<lparr>fs = AList.update (?d @ [''a.txt'']) (File [9, 8, 7, 6, 5]) scenario_fs,
        free = 0, calls = []\<rparr>"
    using w' by (cases w') (simp add: w_full_def)
  moreover have "u' = drained ?u" using copy_upload_Inr(7) [OF run [unfolded r]] .
  ultimately have first: "copy_upload ?d w_full ?u =
     ((\<lparr>fs = AList.update (?d @ [''a.txt'']) (File [9, 8, 7, 6, 5]) scenario_fs,
        free = 0, calls = []\<rparr>, drained ?u), Inr ())"
    using run r by simp
  have pl: "plain_name (replicate 256 (CHR ''a''))" by (rule plain_name_replicate) simp_all
  have nl: "CHR 0x00 \<notin> set (replicate 256 (CHR ''a''))" by simp
  obtain v' x' q where run2: "copy_upload ?d w_full ?l = ((v', x'), q)"
    by (metis surj_pair)
  have hyp2: "wf_fs (fs w_full) \<and> lookup (fs w_full) ?d = Some Dir \<and>
      plain_name (filename ?l) \<and> CHR 0x00 \<notin> set (filename ?l)"
    using wf dir pl nl by (simp add: up_def)
  have long: "NAME_MAX < length (filename ?l)" by (simp add: up_def NAME_MAX_def)
  note destination_created_or_truncated [OF run2, THEN conjunct2, THEN conjunct2, THEN mp, OF hyp2,
      THEN conjunct1, THEN mp, OF long]
  then have second: "snd (copy_upload ?d w_full ?l) = Inl OSError"
    "fst (fst (copy_upload ?d w_full ?l)) = w_full"
    using run2 by simp_all
  show ?thesis
    using wf dir pa old fr first pl nl second by (intro conjI)
qed

section \<open>Unsanitized names\<close>

text \<open>
  C5. The destination is the unsanitized join of the request directory and the
  client-supplied name. With the name \<^verbatim>\<open>../n\<close> a returning call has written the
  upload to \<^verbatim>\<open>/home/app/input/n\<close>, with the absolute name \<^verbatim>\<open>/n\<close> to \<^verbatim>\<open>/n\<close>: both
  outside the request directory, which stays empty. Two uploads with the same name are
  resolved to the same path, and that path holds the second upload.
\<close>

theorem unsanitized_names:
  assumes wf: "wf_fs (fs w)" and n: "plain_name n"
  shows
   "(\<forall>w' fl resp.
       check_file_list lib rid w [\<lparr>filename = ''../'' @ n, fileobj = s\<rparr>] = ((w', fl), Inr resp) \<longrightarrow>
         lookup (fs w') [''home'', ''app'', ''input'', n] = Some (File (data s)) \<and>
         glob_star (fs w') (request_dir rid) = [] \<and>
         take (length (request_dir rid)) [''home'', ''app'', ''input'', n] \<noteq> request_dir rid) \<and>
    (\<forall>w' fl resp.
       check_file_list lib rid w [\<lparr>filename = ''/'' @ n, fileobj = s\<rparr>] = ((w', fl), Inr resp) \<longrightarrow>
         lookup (fs w') [n] = Some (File (data s)) \<and>
         glob_star (fs w') (request_dir rid) = [] \<and>
         take (length (request_dir rid)) [n] \<noteq> request_dir rid) \<and>
    (\<forall>u1 u2 w' fl resp.
       filename u1 = filename u2 \<longrightarrow>
       check_file_list lib rid w [u1, u2] = ((w', fl), Inr resp) \<longrightarrow>
         (\<exists>p. walk (fs w') [] (joinpath (request_dir rid) (filename u1)) = Inr p \<and>
              walk (fs w') [] (joinpath (request_dir rid) (filename u2)) = Inr p \<and>
              lookup (fs w') p = Some (File (data (fileobj u2)))))"
proof (intro conjI allI impI)
  fix w' fl resp
  assume run: "check_file_list lib rid w [\<lparr>filename = ''../'' @ n, fileobj = s\<rparr>] = ((w', fl), Inr resp)"
  define t1 where "t1 = fst (os_makedirs (fs w) (request_dir rid))"
  from run obtain t1' where mk: "os_makedirs (fs w) (request_dir rid) = (t1', Inr ())"
    by (rule check_file_list_Inr)
  then have mk: "os_makedirs (fs w) (request_dir rid) = (t1, Inr ())" by (simp add: t1_def)
  from run obtain w2 where
    "copy_all (request_dir rid) (w\<lparr>fs := t1\<rparr>) [\<lparr>filename = ''../'' @ n, fileobj = s\<rparr>] =
       ((w2, fl), Inr ())"
    using mk by (elim check_file_list_Inr) simp
  from copy_all_Inr [OF this] obtain q where
    q: "walk t1 [] (joinpath (request_dir rid) (''../'' @ n)) = Inr q"
    by simp
  from dest_dotdot [OF q request_dir_facts(2) n]
  have p: "walk t1 [] (joinpath (request_dir rid)
        (filename \<lparr>filename = ''../'' @ n, fileobj = s\<rparr>)) = Inr [''home'', ''app'', ''input'', n]"
    using q by (simp add: request_dir_eq)
  have b: "butlast [''home'', ''app'', ''input'', n] \<noteq> request_dir rid"
    by (simp add: request_dir_eq)
  note r = single_upload_stored [OF run wf p b t1_def]
  show "lookup (fs w') [''home'', ''app'', ''input'', n] = Some (File (data s))"
    using r(1) by simp
  show "glob_star (fs w') (request_dir rid) = []" by (rule r(2))
  show "take (length (request_dir rid)) [''home'', ''app'', ''input'', n] \<noteq> request_dir rid"
    by (rule r(3))
next
  fix w' fl resp
  assume run: "check_file_list lib rid w [\<lparr>filename = ''/'' @ n, fileobj = s\<rparr>] = ((w', fl), Inr resp)"
  define t1 where "t1 = fst (os_makedirs (fs w) (request_dir rid))"
  from run obtain w2 where
    "copy_all (request_dir rid) (w\<lparr>fs := t1\<rparr>) [\<lparr>filename = ''/'' @ n, fileobj = s\<rparr>] =
       ((w2, fl), Inr ())"
    unfolding t1_def by (elim check_file_list_Inr) simp
  from copy_all_Inr [OF this] obtain q where
    q: "walk t1 [] (joinpath (request_dir rid) (''/'' @ n)) = Inr q"
    by simp
  from dest_slash [OF q n]
  have p: "walk t1 [] (joinpath (request_dir rid)
        (filename \<lparr>filename = ''/'' @ n, fileobj = s\<rparr>)) = Inr [n]"
    using q by simp
  have b: "butlast [n] \<noteq> request_dir rid"
    by (simp add: request_dir_eq)
  note r = single_upload_stored [OF run wf p b t1_def]
  show "lookup (fs w') [n] = Some (File (data s))"
    using r(1) by simp
  show "glob_star (fs w') (request_dir rid) = []" by (rule r(2))
  show "take (length (request_dir rid)) [n] \<noteq> request_dir rid"
    by (rule r(3))
next
  fix u1 u2 w' fl resp
  assume same: "filename u1 = filename u2"
    and run: "check_file_list lib rid w [u1, u2] = ((w', fl), Inr resp)"
  from run obtain t1 w2 where
    cp: "copy_all (request_dir rid) (w\<lparr>fs := t1\<rparr>) [u1, u2] = ((w2, fl), Inr ())"
    and w': "fs w' = fs w2"
    by (rule check_file_list_Inr) simp
  let ?p = "dest t1 (request_dir rid) (filename u2)"
  from copy_all_Inr [OF cp] same
  have fs2: "fs w2 = AList.update ?p (File (data (fileobj u2)))
                (AList.update ?p (File (data (fileobj u1))) t1)"
    and wk: "walk t1 [] (joinpath (request_dir rid) (filename u2)) = Inr ?p" and ne: "?p \<noteq> []"
    by (simp_all add: store_def)
  have "same_dirs t1 (fs w2)" using copy_all_inv [OF cp] by simp
  then have "walk (fs w2) [] (joinpath (request_dir rid) (filename u2)) = Inr ?p"
    using wk walk_same_dirs by blast
  moreover have "lookup (fs w2) ?p = Some (File (data (fileobj u2)))"
    using fs2 ne by (simp add: lookup_update)
  ultimately show "\<exists>p. walk (fs w') [] (joinpath (request_dir rid) (filename u1)) = Inr p \<and>
              walk (fs w') [] (joinpath (request_dir rid) (filename u2)) = Inr p \<and>
              lookup (fs w') p = Some (File (data (fileobj u2)))"
    using same w' by auto
qed

theorem unsanitized_names_witness:
  "wf_fs (fs w0) \<and> plain_name ''b'' \<and>
   check_file_list lib_ok 5 w0 [up ''../b'' [4]] =
     ((\<lparr>fs = escaped_fs, free = 99, calls = [([], ''bodc'')]\<rparr>, [drained (up ''../b'' [4])]),
      Inr [''results'' \<mapsto> []]) \<and>
   lookup escaped_fs [''home'', ''app'', ''input'', ''b''] = Some (File [4]) \<and>
   glob_star escaped_fs (request_dir 5) = [] \<and>
   take (length (request_dir 5)) [''home'', ''app'', ''input'', ''b''] \<noteq> request_dir 5 \<and>
   check_file_list lib_ok 5 w0 [up ''/b'' [4]] =
     ((\<lparr>fs = absolute_fs, free = 99, calls = [([], ''bodc'')]\<rparr>, [drained (up ''/b'' [4])]),
      Inr [''results'' \<mapsto> []]) \<and>
   lookup absolute_fs [''b''] = Some (File [4]) \<and>
   glob_star absolute_fs (request_dir 5) = [] \<and>
   filename (up ''a.txt'' [1, 2, 3]) = filename (up ''a.txt'' [4]) \<and>
   check_file_list lib_ok 5 w0 [up ''a.txt'' [1, 2, 3], up ''a.txt'' [4]] =
     ((\<lparr>fs = collided_fs, free = 99, calls = [([request_dir 5 @ [''a.txt'']], ''bodc'')]\<rparr>,
       [drained (up ''a.txt'' [1, 2, 3]), drained (up ''a.txt'' [4])]),
      Inr [''results'' \<mapsto> [request_dir 5 @ [''a.txt'']]]) \<and>
   (\<exists>p. walk collided_fs [] (joinpath (request_dir 5) ''a.txt'') = Inr p \<and>
        lookup collided_fs p = Some (File [4]))"
proof -
  have n: "plain_name ''b''" by (simp add: plain_name_def)
  note th = unsanitized_names [OF wf_fs_w0 n, of lib_ok 5 "\<lparr>data = [4], closed = False\<rparr>"]
  have run1: "check_file_list lib_ok 5 w0
      [\<lparr>filename = ''../'' @ ''b'', fileobj = \<lparr>data = [4], closed = False\<rparr>\<rparr>] =
     ((\<lparr>fs = escaped_fs, free = 99, calls = [([], ''bodc'')]\<rparr>, [drained (up ''../b'' [4])]),
      Inr [''results'' \<mapsto> []])"
    using escaped_run by (simp add: up_def)
  have run2: "check_file_list lib_ok 5 w0
      [\<lparr>filename = ''/'' @ ''b'', fileobj = \<lparr>data = [4], closed = False\<rparr>\<rparr>] =
     ((\<lparr>fs = absolute_fs, free = 99, calls = [([], ''bodc'')]\<rparr>, [drained (up ''/b'' [4])]),
      Inr [''results'' \<mapsto> []])"
    using absolute_run by (simp add: up_def)
  have same: "filename (up ''a.txt'' [1, 2, 3]) = filename (up ''a.txt'' [4])"
    by (simp add: up_def)
  from th have "check_file_list lib_ok 5 w0
      [\<lparr>filename = ''../'' @ ''b'', fileobj = \<lparr>data = [4], closed = False\<rparr>\<rparr>] =
        ((w', fl), Inr resp) \<Longrightarrow>
      lookup (fs w') [''home'', ''app'', ''input'', ''b''] =
          Some (File (data \<lparr>data = [4], closed = False\<rparr>)) \<and>
        glob_star (fs w') (request_dir 5) = [] \<and>
        take (length (request_dir 5)) [''home'', ''app'', ''input'', ''b''] \<noteq> request_dir 5"
    for w' fl resp
    by blast
  note c1 = this [OF run1]
  from th have "check_file_list lib_ok 5 w0
      [\<lparr>filename = ''/'' @ ''b'', fileobj = \<lparr>data = [4], closed = False\<rparr>\<rparr>] =
        ((w', fl), Inr resp) \<Longrightarrow>
      lookup (fs w') [''b''] = Some (File (data \<lparr>data = [4], closed = False\<rparr>)) \<and>
        glob_star (fs w') (request_dir 5) = []"
    for w' fl resp
    by blast
  note c2 = this [OF run2]
  from th have "filename u1 = filename u2 \<Longrightarrow>
      check_file_list lib_ok 5 w0 [u1, u2] = ((w', fl), Inr resp) \<Longrightarrow>
      \<exists>p. walk (fs w') [] (joinpath (request_dir 5) (filename u2)) = Inr p \<and>
          lookup (fs w') p = Some (File (data (fileobj u2)))"
    for u1 u2 w' fl resp
    by blast
  note c3 = this [OF same collided_run]
  have c3': "\<exists>p. walk collided_fs [] (joinpath (request_dir 5) ''a.txt'') = Inr p \<and>
        lookup collided_fs p = Some (File [4])"
    using c3 by (simp add: up_def)
  show ?thesis
    using wf_fs_w0 n escaped_run absolute_run collided_run same c1 c2 c3'
    by (simp del: One_nat_def)
qed

section \<open>Closing the source\<close>

text \<open>
  C6. The body of the loop leaves the stream of its upload closed, whether the copy
  succeeds, the open raises or the copy raises. In a call of the handler the body is
  entered for the first \<open>attempted\<close> uploads, once the directory is made: their
  streams are closed afterwards, the uploads behind them are as they were, and a call
  that returns has entered the body for every upload.
\<close>

theorem source_closed_after_attempt:
  assumes "check_file_list lib rid w files = ((w', files'), r)"
    and "os_makedirs (fs w) (request_dir rid) = (t1, r1)"
  shows "closed (fileobj (snd (fst (copy_upload d v u)))) \<and>
     length files' = length files \<and>
     (\<forall>e. r1 = Inl e \<longrightarrow> files' = files) \<and>
     (\<forall>x. r1 = Inr x \<longrightarrow>
        (\<forall>j < attempted (request_dir rid) (w\<lparr>fs := t1\<rparr>) files. closed (fileobj (files' ! j))) \<and>
        drop (attempted (request_dir rid) (w\<lparr>fs := t1\<rparr>) files) files' =
          drop (attempted (request_dir rid) (w\<lparr>fs := t1\<rparr>) files) files \<and>
        (\<forall>resp. r = Inr resp \<longrightarrow>
           attempted (request_dir rid) (w\<lparr>fs := t1\<rparr>) files = length files))"
proof -
  obtain v' u' q where "copy_upload d v u = ((v', u'), q)"
    by (metis surj_pair)
  then have body: "closed (fileobj (snd (fst (copy_upload d v u))))"
    using copy_upload_closed by fastforce
  show ?thesis
  proof (cases r1)
    case (Inl e)
    with check_file_list_mk_Inl [OF assms(1) assms(2) [unfolded Inl]] body
    show ?thesis by simp
  next
    case (Inr x)
    from check_file_list_mk_Inr [OF assms(1) assms(2) [unfolded Inr]]
    obtain w2 r2 where
      ca: "copy_all (request_dir rid) (w\<lparr>fs := t1\<rparr>) files = ((w2, files'), r2)"
      and ret: "\<And>resp. r = Inr resp \<Longrightarrow> r2 = Inr ()"
      by metis
    note a = copy_all_attempted [OF ca]
    have "attempted (request_dir rid) (w\<lparr>fs := t1\<rparr>) files = length files" if "r = Inr resp" for resp
      using a ret [OF that] by simp
    with a body Inr show ?thesis by simp
  qed
qed

theorem source_closed_after_attempt_witness:
  "os_makedirs (fs w0) (request_dir 5) = (made_fs, Inr ()) \<and>
   check_file_list lib_ok 5 w0 broken_files =
     ((\<lparr>fs = made_fs @ [(request_dir 5 @ [''a.txt''], File [1])], free = 99, calls = []\<rparr>,
       [drained (up ''a.txt'' [1]), \<lparr>filename = ''sub/x'', fileobj = \<lparr>data = [2], closed = True\<rparr>\<rparr>,
        up ''c'' [3]]),
      Inl FileNotFoundError) \<and>
   attempted (request_dir 5) (w0\<lparr>fs := made_fs\<rparr>) broken_files = 2 \<and>
   closed (fileobj (drained (up ''a.txt'' [1]))) \<and>
   closed (fileobj \<lparr>filename = ''sub/x'', fileobj = \<lparr>data = [2], closed = True\<rparr>\<rparr>) \<and>
   drop 2 [drained (up ''a.txt'' [1]), \<lparr>filename = ''sub/x'', fileobj = \<lparr>data = [2], closed = True\<rparr>\<rparr>,
        up ''c'' [3]] = drop 2 broken_files \<and>
   closed (fileobj (snd (fst (copy_upload (request_dir 5) w_tight (up ''big.bin'' (replicate 65537 0))))))"
proof -
  note th = source_closed_after_attempt [OF broken_run makedirs_w0,
      of "request_dir 5" w_tight "up ''big.bin'' (replicate 65537 0)"]
  let ?F = "[drained (up ''a.txt'' [1]), \<lparr>filename = ''sub/x'', fileobj = \<lparr>data = [2], closed = True\<rparr>\<rparr>,
        up ''c'' [3]]"
  from th have body: "closed (fileobj (snd (fst (copy_upload (request_dir 5) w_tight
      (up ''big.bin'' (replicate 65537 0))))))"
    by (rule conjunct1)
  from th have all: "\<forall>j<2. closed (fileobj (?F ! j))" and rest: "drop 2 ?F = drop 2 broken_files"
    unfolding attempted_broken by blast+
  have "closed (fileobj (?F ! 0))" "closed (fileobj (?F ! 1))"
    using all [rule_format, of 0] all [rule_format, of 1] by simp_all
  then show ?thesis
    using makedirs_w0 broken_run attempted_broken rest body by simp
qed

section \<open>Two requests at the same time\<close>

text \<open>
  C7, as stated, fails. The second request makes its directory; the first makes its
  own and copies its upload, which lands in the directory of the second; the second
  copies its upload and calls the checker. The enumeration it hands over holds the
  file \<^verbatim>\<open>x\<close> that the first request wrote.
\<close>

theorem isolation_counterexample:
  "(5 :: uuid) \<noteq> 6 \<and>
   rtranclp (interleave lib_ok 5 6) (w0, Start intruder, Start victim)
     (\<lparr>fs = shared_fs @ [(request_dir 6 @ [''x''], File [4]), (request_dir 6 @ [''y''], File [7])],
       free = 98,
       calls = [([request_dir 6 @ [''x''], request_dir 6 @ [''y'']], ''bodc'')]\<rparr>,
      Copying (map drained intruder) [],
      Finished (map drained victim)
        (Inr [''results'' \<mapsto> [request_dir 6 @ [''x''], request_dir 6 @ [''y'']]])) \<and>
   lookup shared_fs (request_dir 6 @ [''x'']) = None \<and>
   handler_step lib_ok 5 (\<lparr>fs = shared_fs, free = 100, calls = []\<rparr>, Copying [] intruder) =
     (\<lparr>fs = shared_fs @ [(request_dir 6 @ [''x''], File [4])], free = 99, calls = []\<rparr>,
      Copying (map drained intruder) []) \<and>
   request_dir 6 @ [''x''] \<notin> own 6 victim"
proof -
  let ?R = "interleave lib_ok 5 6"
  let ?r = "Inr [''results'' \<mapsto> [request_dir 6 @ [''x''], request_dir 6 @ [''y'']]]
              :: error + (string \<rightharpoonup> path list)"
  have "?R (w0, Start intruder, Start victim)
      (\<lparr>fs = butlast shared_fs, free = 100, calls = []\<rparr>, Start intruder, Copying [] victim)"
    by (rule interleave.second) (simp add: step_simps)
  then have "rtranclp ?R (w0, Start intruder, Start victim)
      (\<lparr>fs = butlast shared_fs, free = 100, calls = []\<rparr>, Start intruder, Copying [] victim)"
    by (rule r_into_rtranclp)
  moreover have "?R (\<lparr>fs = butlast shared_fs, free = 100, calls = []\<rparr>, Start intruder, Copying [] victim)
      (\<lparr>fs = shared_fs, free = 100, calls = []\<rparr>, Copying [] intruder, Copying [] victim)"
    by (rule interleave.first) (simp add: step_simps)
  ultimately have "rtranclp ?R (w0, Start intruder, Start victim)
      (\<lparr>fs = shared_fs, free = 100, calls = []\<rparr>, Copying [] intruder, Copying [] victim)"
    by (rule schedule_trans)
  moreover have writes: "handler_step lib_ok 5
      (\<lparr>fs = shared_fs, free = 100, calls = []\<rparr>, Copying [] intruder) =
     (\<lparr>fs = shared_fs @ [(request_dir 6 @ [''x''], File [4])], free = 99, calls = []\<rparr>,
      Copying (map drained intruder) [])"
    by (simp add: step_simps)
  then have "?R (\<lparr>fs = shared_fs, free = 100, calls = []\<rparr>, Copying [] intruder, Copying [] victim)
      (\<lparr>fs = shared_fs @ [(request_dir 6 @ [''x''], File [4])], free = 99, calls = []\<rparr>,
       Copying (map drained intruder) [], Copying [] victim)"
    by (rule interleave.first)
  ultimately have "rtranclp ?R (w0, Start intruder, Start victim)
      (\<lparr>fs = shared_fs @ [(request_dir 6 @ [''x''], File [4])], free = 99, calls = []\<rparr>,
       Copying (map drained intruder) [], Copying [] victim)"
    by (rule schedule_trans)
  moreover have "?R
      (\<lparr>fs = shared_fs @ [(request_dir 6 @ [''x''], File [4])], free = 99, calls = []\<rparr>,
       Copying (map drained intruder) [], Copying [] victim)
      (\<lparr>fs = shared_fs @ [(request_dir 6 @ [''x''], File [4]), (request_dir 6 @ [''y''], File [7])],
        free = 98, calls = []\<rparr>,
       Copying (map drained intruder) [], Copying (map drained victim) [])"
    by (rule interleave.second) (simp add: step_simps)
  ultimately have "rtranclp ?R (w0, Start intruder, Start victim)
      (\<lparr>fs = shared_fs @ [(request_dir 6 @ [''x''], File [4]), (request_dir 6 @ [''y''], File [7])],
        free = 98, calls = []\<rparr>,
       Copying (map drained intruder) [], Copying (map drained victim) [])"
    by (rule schedule_trans)
  moreover have "?R
      (\<lparr>fs = shared_fs @ [(request_dir 6 @ [''x''], File [4]), (request_dir 6 @ [''y''], File [7])],
        free = 98, calls = []\<rparr>,
       Copying (map drained intruder) [], Copying (map drained victim) [])
      (\<lparr>fs = shared_fs @ [(request_dir 6 @ [''x''], File [4]), (request_dir 6 @ [''y''], File [7])],
        free = 98,
        calls = [([request_dir 6 @ [''x''], request_dir 6 @ [''y'']], ''bodc'')]\<rparr>,
       Copying (map drained intruder) [], Finished (map drained victim) ?r)"
    by (rule interleave.second) (simp add: step_simps)
  ultimately have "rtranclp ?R (w0, Start intruder, Start victim)
      (\<lparr>fs = shared_fs @ [(request_dir 6 @ [''x''], File [4]), (request_dir 6 @ [''y''], File [7])],
        free = 98,
        calls = [([request_dir 6 @ [''x''], request_dir 6 @ [''y'']], ''bodc'')]\<rparr>,
       Copying (map drained intruder) [], Finished (map drained victim) ?r)"
    by (rule schedule_trans)
  moreover have "lookup shared_fs (request_dir 6 @ [''x'']) = None"
    by (simp add: step_simps)
  moreover have "request_dir 6 @ [''x''] \<notin> own 6 victim"
    by (simp add: own_def victim_def up_def)
  moreover have "(5 :: uuid) \<noteq> 6" by simp
  ultimately show ?thesis
    using writes by (intro conjI)
qed

text \<open>
  C7, amended. Distinct identifiers give request directories with no path in common.
  Let two requests with distinct identifiers and plain names run at the same time on a
  well-formed filesystem, their steps interleaved in any way. Whenever one of them has
  come to the end of its loop, its directory holds the files of its own uploads and
  nothing else, and this is the enumeration its next step hands to the checker: no
  file of the other request is in it.
\<close>

theorem requests_isolated:
  assumes ab: "a \<noteq> b" and wf: "wf_fs (fs w)"
    and plain: "\<forall>u \<in> set fa \<union> set fb. plain_name (filename u)"
    and reach: "rtranclp (interleave lib a b) (w, Start fa, Start fb) (w', p, q)"
  shows "(\<forall>x y. request_dir a @ x \<noteq> request_dir b @ y) \<and> own a fa \<inter> own b fb = {} \<and>
     (\<forall>copied. p = Copying copied [] \<longrightarrow>
        set (glob_star (fs w') (request_dir a)) = own a fa \<and>
        set (glob_star (fs w') (request_dir a)) \<inter> own b fb = {} \<and>
        (calls (fst (handler_step lib a (w', p))) = calls w' \<or>
         calls (fst (handler_step lib a (w', p))) =
           calls w' @ [(glob_star (fs w') (request_dir a), ''bodc'')])) \<and>
     (\<forall>copied. q = Copying copied [] \<longrightarrow>
        set (glob_star (fs w') (request_dir b)) = own b fb \<and>
        set (glob_star (fs w') (request_dir b)) \<inter> own a fa = {} \<and>
        (calls (fst (handler_step lib b (w', q))) = calls w' \<or>
         calls (fst (handler_step lib b (w', q))) =
           calls w' @ [(glob_star (fs w') (request_dir b), ''bodc'')]))"
proof -
  have "isolated a b fa fb (w, Start fa, Start fb)"
    using wf by (simp add: isolated_def)
  from inv_reachable [OF ab plain reach this]
  have ok: "phase_ok a fa w' p" "phase_ok b fb w' q"
    by (simp_all add: isolated_def)
  have dis: "own a fa \<inter> own b fb = {}" "own b fb \<inter> own a fa = {}"
    using own_disjoint [OF ab, of fa fb] by auto
  have pa: "set (glob_star (fs w') (request_dir a)) = own a fa" if "p = Copying copied []"
    for copied
    using ok(1) that own_names [of copied fa a] by simp
  have qb: "set (glob_star (fs w') (request_dir b)) = own b fb" if "q = Copying copied []"
    for copied
    using ok(2) that own_names [of copied fb b] by simp
  have A: "\<forall>x y. request_dir a @ x \<noteq> request_dir b @ y"
    using request_dirs_disjoint [OF ab] by blast
  have C: "\<forall>copied. p = Copying copied [] \<longrightarrow>
        set (glob_star (fs w') (request_dir a)) = own a fa \<and>
        set (glob_star (fs w') (request_dir a)) \<inter> own b fb = {} \<and>
        (calls (fst (handler_step lib a (w', p))) = calls w' \<or>
         calls (fst (handler_step lib a (w', p))) =
           calls w' @ [(glob_star (fs w') (request_dir a), ''bodc'')])"
  proof (intro allI impI conjI)
    fix copied
    assume e: "p = Copying copied []"
    show "set (glob_star (fs w') (request_dir a)) = own a fa" using pa [OF e] .
    then show "set (glob_star (fs w') (request_dir a)) \<inter> own b fb = {}"
      using dis(1) by (simp only:)
    show "calls (fst (handler_step lib a (w', p))) = calls w' \<or>
         calls (fst (handler_step lib a (w', p))) =
           calls w' @ [(glob_star (fs w') (request_dir a), ''bodc'')]"
      unfolding e by (rule checker_step_calls)
  qed
  have D: "\<forall>copied. q = Copying copied [] \<longrightarrow>
        set (glob_star (fs w') (request_dir b)) = own b fb \<and>
        set (glob_star (fs w') (request_dir b)) \<inter> own a fa = {} \<and>
        (calls (fst (handler_step lib b (w', q))) = calls w' \<or>
         calls (fst (handler_step lib b (w', q))) =
           calls w' @ [(glob_star (fs w') (request_dir b), ''bodc'')])"
  proof (intro allI impI conjI)
    fix copied
    assume e: "q = Copying copied []"
    show "set (glob_star (fs w') (request_dir b)) = own b fb" using qb [OF e] .
    then show "set (glob_star (fs w') (request_dir b)) \<inter> own a fa = {}"
      using dis(2) by (simp only:)
    show "calls (fst (handler_step lib b (w', q))) = calls w' \<or>
         calls (fst (handler_step lib b (w', q))) =
           calls w' @ [(glob_star (fs w') (request_dir b), ''bodc'')]"
      unfolding e by (rule checker_step_calls)
  qed
  show ?thesis
    by (rule conjI [OF A conjI [OF dis(1) conjI [OF C D]]])
qed

theorem requests_isolated_witness:
  "(5 :: uuid) \<noteq> 6 \<and> wf_fs (fs w0) \<and> plain_name ''a.txt'' \<and> plain_name ''y'' \<and>
   rtranclp (interleave lib_ok 5 6) (w0, Start [up ''a.txt'' [1]], Start victim)
     (\<lparr>fs = shared_fs @ [(request_dir 5 @ [''a.txt''], File [1]), (request_dir 6 @ [''y''], File [7])],
       free = 98, calls = []\<rparr>,
      Copying [drained (up ''a.txt'' [1])] [], Copying (map drained victim) []) \<and>
   set (glob_star
          (shared_fs @ [(request_dir 5 @ [''a.txt''], File [1]), (request_dir 6 @ [''y''], File [7])])
          (request_dir 5)) = own 5 [up ''a.txt'' [1]] \<and>
   set (glob_star
          (shared_fs @ [(request_dir 5 @ [''a.txt''], File [1]), (request_dir 6 @ [''y''], File [7])])
          (request_dir 6)) = own 6 victim \<and>
   own 5 [up ''a.txt'' [1]] \<inter> own 6 victim = {}"
proof -
  let ?R = "interleave lib_ok 5 6 :: world \<times> path list phase \<times> path list phase \<Rightarrow> _"
  let ?fa = "[up ''a.txt'' [1]]"
  let ?W = "\<lparr>fs = shared_fs @ [(request_dir 5 @ [''a.txt''], File [1]), (request_dir 6 @ [''y''], File [7])],
       free = 98, calls = []\<rparr>"
  have ab: "(5 :: uuid) \<noteq> 6" by simp
  have plain: "\<forall>u \<in> set ?fa \<union> set victim. plain_name (filename u)"
    by (simp add: victim_def up_def plain_name_def)
  have "?R (w0, Start ?fa, Start victim)
      (\<lparr>fs = butlast shared_fs, free = 100, calls = []\<rparr>, Start ?fa, Copying [] victim)"
    by (rule interleave.second) (simp add: step_simps)
  then have "rtranclp ?R (w0, Start ?fa, Start victim)
      (\<lparr>fs = butlast shared_fs, free = 100, calls = []\<rparr>, Start ?fa, Copying [] victim)"
    by (rule r_into_rtranclp)
  moreover have "?R (\<lparr>fs = butlast shared_fs, free = 100, calls = []\<rparr>, Start ?fa, Copying [] victim)
      (\<lparr>fs = shared_fs, free = 100, calls = []\<rparr>, Copying [] ?fa, Copying [] victim)"
    by (rule interleave.first) (simp add: step_simps)
  ultimately have "rtranclp ?R (w0, Start ?fa, Start victim)
      (\<lparr>fs = shared_fs, free = 100, calls = []\<rparr>, Copying [] ?fa, Copying [] victim)"
    by (rule schedule_trans)
  moreover have "?R (\<lparr>fs = shared_fs, free = 100, calls = []\<rparr>, Copying [] ?fa, Copying [] victim)
      (\<lparr>fs = shared_fs @ [(request_dir 5 @ [''a.txt''], File [1])], free = 99, calls = []\<rparr>,
       Copying [drained (up ''a.txt'' [1])] [], Copying [] victim)"
    by (rule interleave.first) (simp add: step_simps)
  ultimately have "rtranclp ?R (w0, Start ?fa, Start victim)
      (\<lparr>fs = shared_fs @ [(request_dir 5 @ [''a.txt''], File [1])], free = 99, calls = []\<rparr>,
       Copying [drained (up ''a.txt'' [1])] [], Copying [] victim)"
    by (rule schedule_trans)
  moreover have "?R
      (\<lparr>fs = shared_fs @ [(request_dir 5 @ [''a.txt''], File [1])], free = 99, calls = []\<rparr>,
       Copying [drained (up ''a.txt'' [1])] [], Copying [] victim)
      (?W, Copying [drained (up ''a.txt'' [1])] [], Copying (map drained victim) [])"
    by (rule interleave.second) (simp add: step_simps)
  ultimately have reach: "rtranclp ?R (w0, Start ?fa, Start victim)
      (?W, Copying [drained (up ''a.txt'' [1])] [], Copying (map drained victim) [])"
    by (rule schedule_trans)
  note th = requests_isolated [OF ab wf_fs_w0 plain reach]
  from th have "own 5 ?fa \<inter> own 6 victim = {}" by (elim conjE)
  moreover from th have "set (glob_star (fs ?W) (request_dir 5)) = own 5 ?fa" by blast
  moreover from th have "set (glob_star (fs ?W) (request_dir 6)) = own 6 victim" by blast
  moreover have "plain_name ''a.txt''" "plain_name ''y''" by (simp_all add: plain_name_def)
  ultimately show ?thesis
    using ab wf_fs_w0 reach by simp
qed

section \<open>The order of the uploads\<close>

text \<open>
  C8. Two calls on the same world with the same request identifier, the uploads of the
  second a permutation of the uploads of the first: when both return, the two
  enumerations handed to the checker hold the same paths. The names need not even be
  distinct.
\<close>

theorem enumeration_order_independent:
  assumes perm: "mset files2 = mset files1"
    and run1: "check_file_list lib rid w files1 = ((w1, fl1), Inr resp1)"
    and run2: "check_file_list lib rid w files2 = ((w2, fl2), Inr resp2)"
  shows "\<exists>ps1 ps2. calls w1 = calls w @ [(ps1, ''bodc'')] \<and>
            calls w2 = calls w @ [(ps2, ''bodc'')] \<and> set ps1 = set ps2"
proof -
  let ?d = "request_dir rid"
  from run1 obtain t1 v1 where mk1: "os_makedirs (fs w) ?d = (t1, Inr ())"
    and cp1: "copy_all ?d (w\<lparr>fs := t1\<rparr>) files1 = ((v1, fl1), Inr ())"
    and w1: "w1 = v1\<lparr>calls := calls v1 @ [(glob_star (fs v1) ?d, ''bodc'')]\<rparr>"
    by (rule check_file_list_Inr)
  from run2 obtain t2 v2 where mk2: "os_makedirs (fs w) ?d = (t2, Inr ())"
    and cp2: "copy_all ?d (w\<lparr>fs := t2\<rparr>) files2 = ((v2, fl2), Inr ())"
    and w2: "w2 = v2\<lparr>calls := calls v2 @ [(glob_star (fs v2) ?d, ''bodc'')]\<rparr>"
    by (rule check_file_list_Inr)
  have c1: "calls w1 = calls w @ [(glob_star (fs v1) ?d, ''bodc'')]"
    using w1 copy_all_inv [OF cp1] by simp
  have c2: "calls w2 = calls w @ [(glob_star (fs v2) ?d, ''bodc'')]"
    using w2 copy_all_inv [OF cp2] by simp
  have t: "t2 = t1" using mk1 mk2 by simp
  have "set files2 = set files1" using perm by (rule mset_eq_setD)
  moreover have "fs v1 = store ?d t1 t1 files1" using copy_all_Inr [OF cp1] by simp
  moreover have "fs v2 = store ?d t1 t1 files2" using copy_all_Inr [OF cp2] t by simp
  ultimately have "set (map fst (fs v1)) = set (map fst (fs v2))"
    by (simp only: store_keys)
  then have "set (glob_star (fs v1) ?d) = set (glob_star (fs v2) ?d)"
    by (simp only: set_glob_star)
  with c1 c2 show ?thesis
    by (intro exI [of _ "glob_star (fs v1) ?d"] exI [of _ "glob_star (fs v2) ?d"]) simp
qed

theorem enumeration_order_independent_witness:
  "mset (rev scenario) = mset scenario \<and>
   calls (fst (fst (check_file_list lib_ok 5 w0 scenario))) =
     calls w0 @ [([request_dir 5 @ [''a.txt''], request_dir 5 @ [''b.csv'']], ''bodc'')] \<and>
   calls (fst (fst (check_file_list lib_ok 5 w0 (rev scenario)))) =
     calls w0 @ [([request_dir 5 @ [''b.csv''], request_dir 5 @ [''a.txt'']], ''bodc'')] \<and>
   set [request_dir 5 @ [''a.txt''], request_dir 5 @ [''b.csv'']] =
     set [request_dir 5 @ [''b.csv''], request_dir 5 @ [''a.txt'']]"
proof -
  have perm: "mset (rev scenario) = mset scenario" by simp
  have e: "calls w0 = []" by (simp add: w0_def)
  from enumeration_order_independent [OF perm scenario_run reversed_run]
  obtain ps1 ps2 where
    a: "calls \<lparr>fs = scenario_fs, free = 88,
        calls = [([request_dir 5 @ [''a.txt''], request_dir 5 @ [''b.csv'']], ''bodc'')]\<rparr> =
       calls w0 @ [(ps1, ''bodc'')]"
    and b: "calls \<lparr>fs = made_fs @ [(request_dir 5 @ [''b.csv''], File [120, 44, 121, 10, 49, 44, 50]),
                       (request_dir 5 @ [''a.txt''], File [104, 101, 108, 108, 111])],
        free = 88,
        calls = [([request_dir 5 @ [''b.csv''], request_dir 5 @ [''a.txt'']], ''bodc'')]\<rparr> =
       calls w0 @ [(ps2, ''bodc'')]"
    and c: "set ps1 = set ps2"
    by (elim exE conjE)
  have "ps1 = [request_dir 5 @ [''a.txt''], request_dir 5 @ [''b.csv'']]"
    using a unfolding e by (simp only: world.simps append_Nil list.inject prod.inject)
  moreover have "ps2 = [request_dir 5 @ [''b.csv''], request_dir 5 @ [''a.txt'']]"
    using b unfolding e by (simp only: world.simps append_Nil list.inject prod.inject)
  ultimately have "set [request_dir 5 @ [''a.txt''], request_dir 5 @ [''b.csv'']] =
     set [request_dir 5 @ [''b.csv''], request_dir 5 @ [''a.txt'']]"
    using c by (simp only:)
  then show ?thesis
    using perm unfolding scenario_run reversed_run e
    by (simp only: fst_conv world.simps append_Nil simp_thms)
qed

section \<open>The status probe\<close>

text \<open>
  C9. Every call of the status probe returns the one-element collection holding
  \<^verbatim>\<open>"OK"\<close> and leaves the world as it was; so does any number of calls in a row.
\<close>

theorem app_status_fixed:
  "app_status w = (w, {''OK''}) \<and>
   ((\<lambda>v. fst (app_status v)) ^^ n) w = w \<and>
   snd (app_status (((\<lambda>v. fst (app_status v)) ^^ n) w)) = {''OK''} \<and>
   card (snd (app_status w)) = 1"
proof -
  have "((\<lambda>v. fst (app_status v)) ^^ n) w = w"
    by (induction n) (simp_all add: app_status_def)
  then show ?thesis
    by (simp add: app_status_def)
qed

section \<open>Two uploads of one name\<close>

text \<open>
  C10, as stated, fails for a name that leaves the directory: two uploads named
  \<^verbatim>\<open>../b\<close> raise no error, and after the loop the request directory holds no file.
\<close>

theorem last_writer_counterexample:
  "filename (up ''../b'' [1]) = filename (up ''../b'' [4]) \<and>
   check_file_list lib_ok 5 w0 [up ''../b'' [1], up ''../b'' [4]] =
     ((\<lparr>fs = escaped_fs, free = 99, calls = [([], ''bodc'')]\<rparr>,
       [drained (up ''../b'' [1]), drained (up ''../b'' [4])]),
      Inr [''results'' \<mapsto> []]) \<and>
   glob_star escaped_fs (request_dir 5) = []"
  using escaped_twice_run
  by (simp add: glob_star_def escaped_fs_def request_dir_eq uuid_str_neq up_def)

text \<open>
  C10, amended. Let the names be plain, the filesystem well formed and the request
  directory made. When the loop has copied the uploads before an upload \<open>u\<close>, and one
  of them has the name of \<open>u\<close>: the file of that name holds the bytes of the last of
  them; the open for \<open>u\<close> succeeds at the same path and empties the file, whose bytes
  are free again; the body for \<open>u\<close> raises \<^verbatim>\<open>ValueError\<close> when the stream of
  \<open>u\<close> is closed, \<^verbatim>\<open>OSError\<close> when the bytes of \<open>u\<close> do not fit in the free
  space and the space of the old file together, and returns otherwise: no error is
  raised for the collision. When it returns, the directory has the entries it had, one
  of them with that name, and the file holds the bytes of \<open>u\<close>. Whenever the whole
  loop comes to its end, the directory has one entry for each name, and the file holds
  the bytes of the last upload with that name.
\<close>

theorem last_writer_wins:
  assumes wf: "wf_fs (fs w)" and mk: "os_makedirs (fs w) (request_dir rid) = (t1, Inr ())"
    and plain: "\<forall>v \<in> set (pre @ u # post). plain_name (filename v)"
    and earlier: "filename u \<in> filename ` set pre"
    and cp: "copy_all (request_dir rid) (w\<lparr>fs := t1\<rparr>) pre = ((wj, fj), Inr ())"
  shows
   "lookup (fs wj) (request_dir rid @ [filename u]) =
      Some (File (data (fileobj (last (filter (\<lambda>v. filename v = filename u) pre))))) \<and>
    open_wb wj (joinpath (request_dir rid) (filename u)) =
      (wj\<lparr>fs := AList.update (request_dir rid @ [filename u]) (File []) (fs wj),
          free := free wj +
            length (data (fileobj (last (filter (\<lambda>v. filename v = filename u) pre))))\<rparr>,
       Inr (request_dir rid @ [filename u])) \<and>
    snd (copy_upload (request_dir rid) wj u) =
      (if closed (fileobj u) then Inl ValueError
       else if free wj + length (data (fileobj (last (filter (\<lambda>v. filename v = filename u) pre))))
                < length (data (fileobj u)) then Inl OSError
       else Inr ()) \<and>
    (\<forall>wk u'. copy_upload (request_dir rid) wj u = ((wk, u'), Inr ()) \<longrightarrow>
       lookup (fs wk) (request_dir rid @ [filename u]) = Some (File (data (fileobj u))) \<and>
       glob_star (fs wk) (request_dir rid) = glob_star (fs wj) (request_dir rid) \<and>
       count_list (glob_star (fs wk) (request_dir rid)) (request_dir rid @ [filename u]) = 1) \<and>
    (\<forall>w2 files'.
       copy_all (request_dir rid) (w\<lparr>fs := t1\<rparr>) (pre @ u # post) = ((w2, files'), Inr ()) \<longrightarrow>
       set (glob_star (fs w2) (request_dir rid)) =
         (\<lambda>v. request_dir rid @ [filename v]) ` set (pre @ u # post) \<and>
       (\<forall>v \<in> set (pre @ u # post).
          count_list (glob_star (fs w2) (request_dir rid)) (request_dir rid @ [filename v]) = 1 \<and>
          lookup (fs w2) (request_dir rid @ [filename v]) =
            Some (File (data (fileobj (last (filter (\<lambda>x. filename x = filename v)
                                                (pre @ u # post))))))))"
proof -
  let ?d = "request_dir rid"
  let ?n = "filename u"
  let ?p = "?d @ [?n]"
  let ?old = "data (fileobj (last (filter (\<lambda>v. filename v = filename u) pre)))"
  note fresh = os_makedirs_fresh [OF mk wf request_dir_facts(1)]
  have plain_pre: "\<forall>v \<in> set pre. plain_name (filename v)" using plain by simp
  have pu: "plain_name ?n" using plain by simp
  note sp = stored_plain [OF mk wf request_dir_facts(1,2) cp plain_pre]
  from earlier have ne: "filter (\<lambda>v. filename v = filename u) pre \<noteq> []"
    by (auto simp: filter_empty_conv)
  have A: "lookup (fs wj) ?p = Some (File ?old)"
    using sp(3) [of ?n] ne by simp
  note inv = copy_all_inv [OF cp]
  have wfj: "wf_fs (fs wj)" using inv fresh by simp
  have dirj: "lookup (fs wj) ?d = Some Dir"
    using inv fresh by (simp add: keeps_def)
  from earlier obtain v where v: "v \<in> set pre" "filename v = ?n" by auto
  from copy_all_Inr [OF cp] v(1)
  have "walk t1 [] (joinpath ?d (filename v)) = Inr (dest t1 ?d (filename v))"
    and "nul_free (joinpath ?d (filename v))"
    by simp_all
  then have wkv: "walk t1 [] ?p = Inr (dest t1 ?d ?n)" and nf: "nul_free ?p"
    using v(2) joinpath_plain [OF pu, of ?d] by simp_all
  have short: "length ?n \<le> NAME_MAX"
    using walk_short [OF wkv, of ?n] by simp
  have nul: "CHR 0x00 \<notin> set ?n" using nf by (simp add: nul_free_def)
  have jp: "joinpath ?d ?n = ?p" using pu by (rule joinpath_plain)
  have nd: "?n \<noteq> ''..''" using pu by (simp add: plain_name_def)
  have wk: "walk (fs wj) [] ?p = Inr ?p"
    using walk_plain [OF wfj dirj request_dir_facts(2) _ nd] short
    by (simp add: request_dir_short)
  have pl: "\<not> PATH_MAX \<le> path_len ?p"
    using short by (simp add: path_len_request NAME_MAX_def PATH_MAX_def)
  have nf': "\<not> (\<exists>c \<in> set ?p. CHR 0x00 \<in> set c)"
    using nf by (simp add: nul_free_def)
  have B: "open_wb wj (joinpath ?d ?n) =
      (wj\<lparr>fs := AList.update ?p (File []) (fs wj), free := free wj + length ?old\<rparr>, Inr ?p)"
    unfolding jp using nf' pl wk A by (simp add: open_wb_def)
  have C: "snd (copy_upload ?d wj u) =
      (if closed (fileobj u) then Inl ValueError
       else if free wj + length ?old < length (data (fileobj u)) then Inl OSError
       else Inr ())"
    using copy_upload_outcome [OF B] by simp
  have D: "\<forall>wk u'. copy_upload ?d wj u = ((wk, u'), Inr ()) \<longrightarrow>
       lookup (fs wk) ?p = Some (File (data (fileobj u))) \<and>
       glob_star (fs wk) ?d = glob_star (fs wj) ?d \<and>
       count_list (glob_star (fs wk) ?d) ?p = 1"
  proof (intro allI impI)
    fix wk u'
    assume cu: "copy_upload ?d wj u = ((wk, u'), Inr ())"
    have "dest (fs wj) ?d ?n = ?p" using wk by (simp add: dest_def jp)
    with copy_upload_Inr(5) [OF cu]
    have fk: "fs wk = AList.update ?p (File (data (fileobj u))) (fs wj)" by simp
    have key: "?p \<in> set (map fst (fs wj))"
      using A lookup_None_iff [of "fs wj" ?p] by auto
    have g: "glob_star (fs wk) ?d = glob_star (fs wj) ?d"
      using fk key by (simp add: glob_star_update)
    have "?p = (\<lambda>v. ?d @ [filename v]) v" using v(2) by simp
    then have "?p \<in> set (glob_star (fs wj) ?d)"
      unfolding sp(1) using v(1) by (rule image_eqI)
    then have "count_list (glob_star (fs wj) ?d) ?p = 1"
      using sp(2) by (intro count_list_distinct)
    then show "lookup (fs wk) ?p = Some (File (data (fileobj u))) \<and>
       glob_star (fs wk) ?d = glob_star (fs wj) ?d \<and>
       count_list (glob_star (fs wk) ?d) ?p = 1"
      using fk g by (simp add: lookup_update)
  qed
  have E: "\<forall>w2 files'.
       copy_all ?d (w\<lparr>fs := t1\<rparr>) (pre @ u # post) = ((w2, files'), Inr ()) \<longrightarrow>
       set (glob_star (fs w2) ?d) = (\<lambda>v. ?d @ [filename v]) ` set (pre @ u # post) \<and>
       (\<forall>v \<in> set (pre @ u # post).
          count_list (glob_star (fs w2) ?d) (?d @ [filename v]) = 1 \<and>
          lookup (fs w2) (?d @ [filename v]) =
            Some (File (data (fileobj (last (filter (\<lambda>x. filename x = filename v)
                                                (pre @ u # post)))))))"
  proof (intro allI impI)
    fix w2 files'
    assume ca: "copy_all ?d (w\<lparr>fs := t1\<rparr>) (pre @ u # post) = ((w2, files'), Inr ())"
    note sa = stored_plain [OF mk wf request_dir_facts(1,2) ca plain]
    have "count_list (glob_star (fs w2) ?d) (?d @ [filename x]) = 1 \<and>
          lookup (fs w2) (?d @ [filename x]) =
            Some (File (data (fileobj (last (filter (\<lambda>y. filename y = filename x)
                                                (pre @ u # post))))))"
      if x: "x \<in> set (pre @ u # post)" for x
    proof -
      have "?d @ [filename x] \<in> set (glob_star (fs w2) ?d)"
        unfolding sa(1) using refl x by (rule image_eqI)
      then have "count_list (glob_star (fs w2) ?d) (?d @ [filename x]) = 1"
        using sa(2) by (intro count_list_distinct)
      moreover have "filter (\<lambda>y. filename y = filename x) (pre @ u # post) \<noteq> []"
        using x by (auto simp: filter_empty_conv)
      ultimately show ?thesis
        using sa(3) [of "filename x"] by simp
    qed
    note each = this
    show "set (glob_star (fs w2) ?d) = (\<lambda>v. ?d @ [filename v]) ` set (pre @ u # post) \<and>
       (\<forall>v \<in> set (pre @ u # post).
          count_list (glob_star (fs w2) ?d) (?d @ [filename v]) = 1 \<and>
          lookup (fs w2) (?d @ [filename v]) =
            Some (File (data (fileobj (last (filter (\<lambda>x. filename x = filename v)
                                                (pre @ u # post)))))))"
      by (intro conjI ballI sa(1)) (rule each [THEN conjunct1], assumption,
          rule each [THEN conjunct2], assumption)
  qed
  show ?thesis
    by (rule conjI [OF A conjI [OF B conjI [OF C conjI [OF D E]]]])
qed

theorem last_writer_wins_witness:
  "wf_fs (fs w_small) \<and> os_makedirs (fs w_small) (request_dir 5) = (made_fs, Inr ()) \<and>
   plain_name ''a.txt'' \<and>
   copy_all (request_dir 5) (w_small\<lparr>fs := made_fs\<rparr>) [up ''a.txt'' [1, 2, 3]] =
     ((\<lparr>fs = made_fs @ [(request_dir 5 @ [''a.txt''], File [1, 2, 3])], free = 0, calls = []\<rparr>,
       [drained (up ''a.txt'' [1, 2, 3])]), Inr ()) \<and>
   lookup (made_fs @ [(request_dir 5 @ [''a.txt''], File [1, 2, 3])]) (request_dir 5 @ [''a.txt''])
     = Some (File [1, 2, 3]) \<and>
   open_wb \<lparr>fs = made_fs @ [(request_dir 5 @ [''a.txt''], File [1, 2, 3])], free = 0, calls = []\<rparr>
       (joinpath (request_dir 5) ''a.txt'') =
     (\<lparr>fs = AList.update (request_dir 5 @ [''a.txt'']) (File [])
              (made_fs @ [(request_dir 5 @ [''a.txt''], File [1, 2, 3])]),
       free = 3, calls = []\<rparr>,
      Inr (request_dir 5 @ [''a.txt''])) \<and>
   snd (copy_upload (request_dir 5)
          \<lparr>fs = made_fs @ [(request_dir 5 @ [''a.txt''], File [1, 2, 3])], free = 0, calls = []\<rparr>
          (up ''a.txt'' [4, 5, 6])) = Inr () \<and>
   snd (copy_upload (request_dir 5)
          \<lparr>fs = made_fs @ [(request_dir 5 @ [''a.txt''], File [1, 2, 3])], free = 0, calls = []\<rparr>
          (up ''a.txt'' [4, 5, 6, 7])) = Inl OSError \<and>
   copy_all (request_dir 5) (w_small\<lparr>fs := made_fs\<rparr>)
       [up ''a.txt'' [1, 2, 3], up ''a.txt'' [4, 5, 6]] =
     ((\<lparr>fs = made_fs @ [(request_dir 5 @ [''a.txt''], File [4, 5, 6])], free = 0, calls = []\<rparr>,
       [drained (up ''a.txt'' [1, 2, 3]), drained (up ''a.txt'' [4, 5, 6])]), Inr ()) \<and>
   set (glob_star (made_fs @ [(request_dir 5 @ [''a.txt''], File [4, 5, 6])]) (request_dir 5)) =
     {request_dir 5 @ [''a.txt'']} \<and>
   count_list (glob_star (made_fs @ [(request_dir 5 @ [''a.txt''], File [4, 5, 6])]) (request_dir 5))
     (request_dir 5 @ [''a.txt'']) = 1 \<and>
   lookup (made_fs @ [(request_dir 5 @ [''a.txt''], File [4, 5, 6])]) (request_dir 5 @ [''a.txt''])
     = Some (File [4, 5, 6])"
proof -
  let ?d = "request_dir 5"
  let ?a = "up ''a.txt'' [1, 2, 3]"
  let ?b = "up ''a.txt'' [4, 5, 6]"
  let ?c = "up ''a.txt'' [4, 5, 6, 7]"
  let ?J = "\<lparr>fs = made_fs @ [(?d @ [''a.txt''], File [1, 2, 3])], free = 0, calls = []\<rparr>"
  let ?K = "\<lparr>fs = made_fs @ [(?d @ [''a.txt''], File [4, 5, 6])], free = 0, calls = []\<rparr>"
  have pa: "plain_name ''a.txt''" by (simp add: plain_name_def)
  have plain: "\<forall>v \<in> set ([?a] @ u # []). plain_name (filename v)" if "filename u = ''a.txt''" for u
    using pa that by (simp add: up_def)
  have earlier: "filename u \<in> filename ` set [?a]" if "filename u = ''a.txt''" for u
    using that by (simp add: up_def)
  have fb: "filename ?b = ''a.txt''" and fc: "filename ?c = ''a.txt''" by (simp_all add: up_def)
  note tb = last_writer_wins [OF wf_fs_w_small makedirs_w_small plain [OF fb] earlier [OF fb] small_first]
  note tc = last_writer_wins [OF wf_fs_w_small makedirs_w_small plain [OF fc] earlier [OF fc] small_first]
  have l1: "lookup (fs ?J) (?d @ [''a.txt'']) = Some (File [1, 2, 3])"
    using tb [THEN conjunct1] by (simp add: up_def)
  have op: "open_wb ?J (joinpath ?d ''a.txt'') =
     (\<lparr>fs = AList.update (?d @ [''a.txt'']) (File []) (made_fs @ [(?d @ [''a.txt''], File [1, 2, 3])]),
       free = 3, calls = []\<rparr>, Inr (?d @ [''a.txt'']))"
    using tb [THEN conjunct2, THEN conjunct1] by (simp add: up_def)
  have ok: "snd (copy_upload ?d ?J ?b) = Inr ()"
    using tb [THEN conjunct2, THEN conjunct2, THEN conjunct1] by (simp add: up_def)
  have full: "snd (copy_upload ?d ?J ?c) = Inl OSError"
    using tc [THEN conjunct2, THEN conjunct2, THEN conjunct1] by (simp add: up_def)
  note e = tb [THEN conjunct2, THEN conjunct2, THEN conjunct2, THEN conjunct2, rule_format,
      OF small_both]
  have g: "set (glob_star (fs ?K) ?d) = {?d @ [''a.txt'']}"
    using e [THEN conjunct1] by (simp add: up_def)
  have "?b \<in> set ([?a] @ ?b # [])" by simp
  from e [THEN conjunct2, rule_format, OF this]
  have c: "count_list (glob_star (fs ?K) ?d) (?d @ [''a.txt'']) = 1"
    and l: "lookup (fs ?K) (?d @ [''a.txt'']) = Some (File [4, 5, 6])"
    by (simp_all add: up_def)
  show ?thesis
    using wf_fs_w_small makedirs_w_small pa small_first l1 op ok full small_both g c l
    by simp
qed

end
